theory Spec2Isabelle
  imports Main "HOL-Library.Word"
begin

section \<open>Python strings and the parts of urllib.parse that the scraper calls\<close>

text \<open>
  The scraper of \<^verbatim>\<open>INITIAL.md\<close> (section 2.3, \<^verbatim>\<open>scraper/main.py\<close>) is Python. A Python
  \<^verbatim>\<open>str\<close> is represented by its UTF-8 encoding, a \<^typ>\<open>string\<close>; \<^verbatim>\<open>in\<close>, \<^verbatim>\<open>find\<close> and
  \<^verbatim>\<open>split\<close> on ASCII delimiters agree on both views. The library functions
  \<^verbatim>\<open>urlparse\<close>, \<^verbatim>\<open>parse_qs\<close>, \<^verbatim>\<open>urlencode\<close> and \<^verbatim>\<open>urlunparse\<close> follow
  \<^verbatim>\<open>urllib/parse.py\<close> of CPython 3.11.10 with the default arguments the scraper uses.
  The only check of \<^verbatim>\<open>urlsplit\<close> left out is \<^verbatim>\<open>_checknetloc\<close>, the NFKC test on a non-ASCII
  netloc, which can only raise \<^verbatim>\<open>ValueError\<close>: where \<open>urlsplit\<close> below returns a result,
  the library returns the same result or raises in that check.
\<close>

datatype py_error = ValueError | AttributeError | ValidationError | OSError

definition is_upper :: "char \<Rightarrow> bool" where
  "is_upper c = (65 \<le> (of_char c :: nat) \<and> (of_char c :: nat) \<le> 90)"

definition is_lower :: "char \<Rightarrow> bool" where
  "is_lower c = (97 \<le> (of_char c :: nat) \<and> (of_char c :: nat) \<le> 122)"

definition is_digit :: "char \<Rightarrow> bool" where
  "is_digit c = (48 \<le> (of_char c :: nat) \<and> (of_char c :: nat) \<le> 57)"

definition is_hex :: "char \<Rightarrow> bool" where
  "is_hex c = (is_digit c \<or> (65 \<le> (of_char c :: nat) \<and> (of_char c :: nat) \<le> 70)
                \<or> (97 \<le> (of_char c :: nat) \<and> (of_char c :: nat) \<le> 102))"

definition is_alpha :: "char \<Rightarrow> bool" where
  "is_alpha c = (is_upper c \<or> is_lower c)"

definition ascii_lower :: "char \<Rightarrow> char" where
  "ascii_lower c = (if is_upper c then char_of ((of_char c :: nat) + 32) else c)"

text \<open>\<^verbatim>\<open>d in s\<close> on strings: \<open>d\<close> occurs in \<open>s\<close> as a contiguous substring.\<close>

fun starts_with :: "string \<Rightarrow> string \<Rightarrow> bool" where
  "starts_with [] s = True"
| "starts_with (d # ds) [] = False"
| "starts_with (d # ds) (c # cs) = (d = c \<and> starts_with ds cs)"

fun py_in :: "string \<Rightarrow> string \<Rightarrow> bool" where
  "py_in d [] = (d = [])"
| "py_in d (c # cs) = (starts_with d (c # cs) \<or> py_in d cs)"

text \<open>\<^verbatim>\<open>s.split(c, 1)\<close>: the text before the first \<open>c\<close>, and the text after it if \<open>c\<close> occurs.\<close>

definition before :: "char \<Rightarrow> string \<Rightarrow> string" where
  "before c s = takeWhile (\<lambda>x. x \<noteq> c) s"

definition after :: "char \<Rightarrow> string \<Rightarrow> string" where
  "after c s = drop 1 (dropWhile (\<lambda>x. x \<noteq> c) s)"

text \<open>\<^verbatim>\<open>s.split(c)\<close>: all the pieces between occurrences of \<open>c\<close>.\<close>

fun split_all :: "char \<Rightarrow> string \<Rightarrow> string list" where
  "split_all c [] = [[]]"
| "split_all c (x # xs) =
     (case split_all c xs of
        [] \<Rightarrow> [[]]
      | p # ps \<Rightarrow> if x = c then [] # p # ps else (x # p) # ps)"

subsection \<open>urlsplit, urlparse, urlunparse\<close>

record ParseResult =
  scheme :: string
  netloc :: string
  path :: string
  params :: string
  query :: string
  fragment :: string

definition scheme_chars :: "char \<Rightarrow> bool" where
  "scheme_chars c = (is_alpha c \<or> is_digit c \<or> c = CHR ''+'' \<or> c = CHR ''-'' \<or> c = CHR ''.'')"

definition uses_params :: "string list" where
  "uses_params = ['''', ''ftp'', ''hdl'', ''prospero'', ''http'', ''imap'', ''https'',
     ''shttp'', ''rtsp'', ''rtsps'', ''rtspu'', ''sip'', ''sips'', ''mms'', ''sftp'', ''tel'']"

definition uses_netloc :: "string list" where
  "uses_netloc = ['''', ''ftp'', ''http'', ''gopher'', ''nntp'', ''telnet'', ''imap'', ''wais'',
     ''file'', ''mms'', ''https'', ''shttp'', ''snews'', ''prospero'', ''rtsp'', ''rtsps'',
     ''rtspu'', ''rsync'', ''svn'', ''svn+ssh'', ''sftp'', ''nfs'', ''git'', ''git+ssh'', ''ws'',
     ''wss'']"

text \<open>
  \<^verbatim>\<open>url.lstrip(_WHATWG_C0_CONTROL_OR_SPACE)\<close>: the characters U+0000 to U+0020 are removed
  from the front. \<^verbatim>\<open>_UNSAFE_URL_BYTES_TO_REMOVE\<close>: tab, carriage return and line feed are
  deleted everywhere.
\<close>

definition c0_or_space :: "char \<Rightarrow> bool" where
  "c0_or_space c = ((of_char c :: nat) \<le> 32)"

definition unsafe_byte :: "char \<Rightarrow> bool" where
  "unsafe_byte c = (c = CHR 0x09 \<or> c = CHR 0x0D \<or> c = CHR 0x0A)"

text \<open>
  The scheme test of \<^verbatim>\<open>urlsplit\<close>: a colon at an index \<open>i > 0\<close>, an ASCII letter first,
  and only scheme characters before the colon. The scheme is lower-cased.
\<close>

definition split_scheme :: "string \<Rightarrow> string \<times> string" where
  "split_scheme url =
     (let pre = before CHR '':'' url in
      if CHR '':'' \<in> set url \<and> pre \<noteq> [] \<and> is_alpha (hd pre) \<and> list_all scheme_chars pre
      then (map ascii_lower pre, after CHR '':'' url)
      else ([], url))"

definition netloc_delim :: "char \<Rightarrow> bool" where
  "netloc_delim c = (c = CHR ''/'' \<or> c = CHR ''?'' \<or> c = CHR ''#'')"

text \<open>\<^verbatim>\<open>_splitnetloc(url, 2)\<close>, called when the text starts with two slashes.\<close>

definition splitnetloc :: "string \<Rightarrow> string \<times> string" where
  "splitnetloc url =
     (takeWhile (\<lambda>c. \<not> netloc_delim c) (drop 2 url),
      dropWhile (\<lambda>c. \<not> netloc_delim c) (drop 2 url))"

definition bad_brackets :: "string \<Rightarrow> bool" where
  "bad_brackets n =
     ((CHR ''['' \<in> set n \<and> CHR '']'' \<notin> set n) \<or> (CHR '']'' \<in> set n \<and> CHR ''['' \<notin> set n))"

text \<open>
  \<^verbatim>\<open>_check_bracketed_host(hostname)\<close>, called on the text between the first \<^verbatim>\<open>[\<close> of the
  netloc and the next \<^verbatim>\<open>]\<close>. A host that starts with \<^verbatim>\<open>v\<close> has to match
  \<^verbatim>\<open>\Av[a-fA-F0-9]+\..+\Z\<close>; any other has to be an IPv6 address and not an IPv4 address for
  \<^verbatim>\<open>ipaddress.ip_address\<close>.
  \<^item> \<^verbatim>\<open>IPv4Address\<close>: no slash, four parts between dots, each of one to three ASCII digits
    without a leading zero and at most 255.
  \<^item> \<^verbatim>\<open>IPv6Address\<close>: no slash; a scope after \<^verbatim>\<open>%\<close> is not empty and has no \<^verbatim>\<open>%\<close>; the
    address has at least three parts between colons; a last part with a dot is an IPv4
    address and counts as two groups; at most nine parts; at most one empty part strictly
    inside (the \<^verbatim>\<open>::\<close>), with an empty first or last part only next to it and fewer than
    eight groups around it; without it, eight groups. A group is one to four hexadecimal
    digits.
\<close>

definition octet_ok :: "string \<Rightarrow> bool" where
  "octet_ok s =
     (s \<noteq> [] \<and> list_all is_digit s \<and> length s \<le> 3 \<and> (s = ''0'' \<or> hd s \<noteq> CHR ''0'')
      \<and> foldl (\<lambda>n c. 10 * n + ((of_char c :: nat) - 48)) 0 s \<le> 255)"

definition ipv4_ok :: "string \<Rightarrow> bool" where
  "ipv4_ok s =
     (CHR ''/'' \<notin> set s \<and> s \<noteq> [] \<and> length (split_all CHR ''.'' s) = 4
      \<and> list_all octet_ok (split_all CHR ''.'' s))"

definition hextet_ok :: "string \<Rightarrow> bool" where
  "hextet_ok s = (s \<noteq> [] \<and> list_all is_hex s \<and> length s \<le> 4)"

definition ipv6_parts_ok :: "string list \<Rightarrow> bool" where
  "ipv6_parts_ok parts =
     (let n = length parts; skips = filter (\<lambda>i. parts ! i = []) [1 ..< n - 1] in
      n \<le> 9 \<and>
      (case skips of
         [] \<Rightarrow> n = 8 \<and> list_all hextet_ok parts
       | [k] \<Rightarrow>
           (let hi = (if hd parts = [] then k - 1 else k);
                lo = (if last parts = [] then n - k - 2 else n - k - 1)
            in (if hd parts = [] then hi = 0 else True)
               \<and> (if last parts = [] then lo = 0 else True)
               \<and> hi + lo < 8
               \<and> list_all hextet_ok (take hi parts)
               \<and> list_all hextet_ok (drop (n - lo) parts))
       | _ \<Rightarrow> False))"

definition ipv6_ok :: "string \<Rightarrow> bool" where
  "ipv6_ok s =
     (CHR ''/'' \<notin> set s
      \<and> (if CHR ''%'' \<in> set s
          then after CHR ''%'' s \<noteq> [] \<and> CHR ''%'' \<notin> set (after CHR ''%'' s) else True)
      \<and> (let addr = before CHR ''%'' s; parts = split_all CHR '':'' addr in
          addr \<noteq> [] \<and> 3 \<le> length parts
          \<and> (if CHR ''.'' \<in> set (last parts)
              then ipv4_ok (last parts) \<and> ipv6_parts_ok (butlast parts @ [''0'', ''0''])
              else ipv6_parts_ok parts)))"

definition ipvfuture_ok :: "string \<Rightarrow> bool" where
  "ipvfuture_ok s =
     (case dropWhile is_hex (drop 1 s) of
        [] \<Rightarrow> False
      | d # r \<Rightarrow> takeWhile is_hex (drop 1 s) \<noteq> [] \<and> d = CHR ''.'' \<and> r \<noteq> []
                 \<and> CHR 0x0A \<notin> set r)"

definition bracketed_host_ok :: "string \<Rightarrow> bool" where
  "bracketed_host_ok h =
     (if starts_with ''v'' h then ipvfuture_ok h else \<not> ipv4_ok h \<and> ipv6_ok h)"

definition bad_host :: "string \<Rightarrow> bool" where
  "bad_host n =
     (CHR ''['' \<in> set n \<and> CHR '']'' \<in> set n
      \<and> \<not> bracketed_host_ok (before CHR '']'' (after CHR ''['' n)))"

text \<open>
  \<^verbatim>\<open>urlsplit(url)\<close> as the five components (scheme, netloc, url, query, fragment);
  an unbalanced bracket in the netloc raises \<^verbatim>\<open>ValueError("Invalid IPv6 URL")\<close>.
  \<^verbatim>\<open>
      url = url.lstrip(_WHATWG_C0_CONTROL_OR_SPACE)
      for b in _UNSAFE_URL_BYTES_TO_REMOVE:
          url = url.replace(b, "")
      netloc = query = fragment = ''
      i = url.find(':')
      if i > 0 and url[0].isascii() and url[0].isalpha():
          for c in url[:i]:
              if c not in scheme_chars:
                  break
          else:
              scheme, url = url[:i].lower(), url[i+1:]
      if url[:2] == '//':
          netloc, url = _splitnetloc(url, 2)
          if (('[' in netloc and ']' not in netloc) or
                  (']' in netloc and '[' not in netloc)):
              raise ValueError("Invalid IPv6 URL")
          if '[' in netloc and ']' in netloc:
              bracketed_host = netloc.partition('[')[2].partition(']')[0]
              _check_bracketed_host(bracketed_host)
      if allow_fragments and '#' in url:
          url, fragment = url.split('#', 1)
      if '?' in url:
          url, query = url.split('?', 1)
      v = SplitResult(scheme, netloc, url, query, fragment)
  \<close>
\<close>

definition urlsplit :: "string \<Rightarrow> py_error + (string \<times> string \<times> string \<times> string \<times> string)" where
  "urlsplit url0 =
     (let url1 = filter (\<lambda>c. \<not> unsafe_byte c) (dropWhile c0_or_space url0);
          (sch, url2) = split_scheme url1;
          (nl, url3) = (if take 2 url2 = ''//'' then splitnetloc url2 else ([], url2))
      in if bad_brackets nl then Inl ValueError
         else if bad_host nl then Inl ValueError
         else
           let (url4, frag) =
                 (if CHR ''#'' \<in> set url3 then (before CHR ''#'' url3, after CHR ''#'' url3)
                  else (url3, []));
               (url5, qry) =
                 (if CHR ''?'' \<in> set url4 then (before CHR ''?'' url4, after CHR ''?'' url4)
                  else (url4, []))
           in Inr (sch, nl, url5, qry, frag))"

text \<open>
  \<^verbatim>\<open>_splitparams(url)\<close>, called when the path holds a semicolon: the parameters start at
  the first semicolon of the last path segment.
\<close>

definition last_segment :: "string \<Rightarrow> string" where
  "last_segment url = rev (takeWhile (\<lambda>c. c \<noteq> CHR ''/'') (rev url))"

definition splitparams :: "string \<Rightarrow> string \<times> string" where
  "splitparams url =
     (let seg = last_segment url; dir = take (length url - length seg) url in
      if CHR '';'' \<in> set seg then (dir @ before CHR '';'' seg, after CHR '';'' seg)
      else (url, []))"

definition urlparse :: "string \<Rightarrow> py_error + ParseResult" where
  "urlparse url =
     (case urlsplit url of
        Inl e \<Rightarrow> Inl e
      | Inr (sch, nl, u, qry, frag) \<Rightarrow>
          let (u', prm) = (if sch \<in> set uses_params \<and> CHR '';'' \<in> set u then splitparams u
                           else (u, []))
          in Inr \<lparr>scheme = sch, netloc = nl, path = u', params = prm, query = qry,
                  fragment = frag\<rparr>)"

text \<open>
  \<^verbatim>\<open>urlunsplit\<close>: the two slashes and the netloc are written when there is a netloc, when
  the scheme is one that takes a netloc, or when the path starts with two slashes; a path
  that follows them gets a leading slash if it has none.
\<close>

definition urlunsplit :: "string \<Rightarrow> string \<Rightarrow> string \<Rightarrow> string \<Rightarrow> string \<Rightarrow> string" where
  "urlunsplit sch nl url qry frag =
     (let url1 = (if nl \<noteq> [] \<or> (sch \<noteq> [] \<and> sch \<in> set uses_netloc) \<or> take 2 url = ''//''
                  then ''//'' @ nl @ (if url \<noteq> [] \<and> take 1 url \<noteq> ''/'' then ''/'' @ url else url)
                  else url);
          url2 = (if sch \<noteq> [] then sch @ '':'' @ url1 else url1);
          url3 = (if qry \<noteq> [] then url2 @ ''?'' @ qry else url2)
      in if frag \<noteq> [] then url3 @ ''#'' @ frag else url3)"

definition urlunparse :: "ParseResult \<Rightarrow> string" where
  "urlunparse p =
     urlunsplit (scheme p) (netloc p)
       (if params p \<noteq> [] then path p @ '';'' @ params p else path p) (query p) (fragment p)"

subsection \<open>Percent-encoding: unquote and quote_plus\<close>

definition hex_val :: "char \<Rightarrow> nat" where
  "hex_val c = (if is_digit c then of_char c - 48
                else if is_upper c then of_char c - 55 else of_char c - 87)"

text \<open>
  \<^verbatim>\<open>unquote_to_bytes\<close>: a percent sign followed by two hexadecimal digits becomes the
  byte they denote; any other percent sign stays as it is.
\<close>

fun pct_decode :: "string \<Rightarrow> string" where
  "pct_decode (c # h1 # h2 # rest) =
     (if c = CHR ''%'' \<and> is_hex h1 \<and> is_hex h2
      then char_of (16 * hex_val h1 + hex_val h2) # pct_decode rest
      else c # pct_decode (h1 # h2 # rest))"
| "pct_decode (c # rest) = c # pct_decode rest"
| "pct_decode [] = []"

text \<open>
  \<^verbatim>\<open>bytes.decode('utf-8', 'replace')\<close>, on the UTF-8 view of strings: well-formed
  sequences are kept, and every maximal ill-formed part is replaced by U+FFFD
  (the bytes EF BF BD).
\<close>

definition cont_byte :: "char \<Rightarrow> bool" where
  "cont_byte c = (128 \<le> (of_char c :: nat) \<and> (of_char c :: nat) \<le> 191)"

definition FFFD :: string where
  "FFFD = [CHR 0xEF, CHR 0xBF, CHR 0xBD]"

definition second_ok :: "char \<Rightarrow> char \<Rightarrow> bool" where
  "second_ok b c =
     (cont_byte c
      \<and> (b = CHR 0xE0 \<longrightarrow> 160 \<le> (of_char c :: nat))
      \<and> (b = CHR 0xED \<longrightarrow> (of_char c :: nat) < 160)
      \<and> (b = CHR 0xF0 \<longrightarrow> 144 \<le> (of_char c :: nat))
      \<and> (b = CHR 0xF4 \<longrightarrow> (of_char c :: nat) < 144))"

fun utf8_replace :: "string \<Rightarrow> string" where
  "utf8_replace [] = []"
| "utf8_replace (b # bs) =
     (if (of_char b :: nat) < 128 then b # utf8_replace bs
      else if 194 \<le> (of_char b :: nat) \<and> (of_char b :: nat) \<le> 223 then
        (case bs of
           [] \<Rightarrow> FFFD
         | c # cs \<Rightarrow> if cont_byte c then b # c # utf8_replace cs else FFFD @ utf8_replace bs)
      else if 224 \<le> (of_char b :: nat) \<and> (of_char b :: nat) \<le> 239 then
        (case bs of
           [] \<Rightarrow> FFFD
         | c # cs \<Rightarrow>
             if second_ok b c then
               (case cs of
                  [] \<Rightarrow> FFFD
                | d # ds \<Rightarrow>
                    if cont_byte d then b # c # d # utf8_replace ds else FFFD @ utf8_replace cs)
             else FFFD @ utf8_replace bs)
      else if 240 \<le> (of_char b :: nat) \<and> (of_char b :: nat) \<le> 244 then
        (case bs of
           [] \<Rightarrow> FFFD
         | c # cs \<Rightarrow>
             if second_ok b c then
               (case cs of
                  [] \<Rightarrow> FFFD
                | d # ds \<Rightarrow>
                    if cont_byte d then
                      (case ds of
                         [] \<Rightarrow> FFFD
                       | e # es \<Rightarrow>
                           if cont_byte e then b # c # d # e # utf8_replace es
                           else FFFD @ utf8_replace ds)
                    else FFFD @ utf8_replace cs)
             else FFFD @ utf8_replace bs)
      else FFFD @ utf8_replace bs)"

text \<open>
  \<^verbatim>\<open>unquote(s, encoding='utf-8', errors='replace')\<close>. A string without a percent sign is
  returned as it is; otherwise the escapes are decoded and the bytes read as UTF-8.
\<close>

definition unquote :: "string \<Rightarrow> string" where
  "unquote s = (if CHR ''%'' \<notin> set s then s else utf8_replace (pct_decode s))"

definition always_safe :: "char \<Rightarrow> bool" where
  "always_safe c = (is_alpha c \<or> is_digit c \<or> c = CHR ''_'' \<or> c = CHR ''.'' \<or> c = CHR ''-''
                     \<or> c = CHR ''~'')"

definition hex_digit :: "nat \<Rightarrow> char" where
  "hex_digit n = (if n < 10 then char_of (48 + n) else char_of (55 + n))"

text \<open>\<^verbatim>\<open>quote_plus(s)\<close> with its default \<^verbatim>\<open>safe=''\<close>.\<close>

definition quote_byte :: "char \<Rightarrow> string" where
  "quote_byte c =
     (if always_safe c then [c]
      else if c = CHR '' '' then ''+''
      else [CHR ''%'', hex_digit ((of_char c :: nat) div 16), hex_digit ((of_char c :: nat) mod 16)])"

definition quote_plus :: "string \<Rightarrow> string" where
  "quote_plus s = concat (map quote_byte s)"

subsection \<open>parse_qs and urlencode\<close>

text \<open>
  \<^verbatim>\<open>parse_qsl(qs)\<close> with \<^verbatim>\<open>keep_blank_values=False\<close>, \<^verbatim>\<open>strict_parsing=False\<close> and the
  separator \<^verbatim>\<open>&\<close>: a field without \<^verbatim>\<open>=\<close> or with an empty value is skipped.
\<close>

definition plus_to_space :: "string \<Rightarrow> string" where
  "plus_to_space s = map (\<lambda>c. if c = CHR ''+'' then CHR '' '' else c) s"

definition parse_field :: "string \<Rightarrow> (string \<times> string) option" where
  "parse_field nv =
     (if CHR ''='' \<in> set nv \<and> after CHR ''='' nv \<noteq> []
      then Some (unquote (plus_to_space (before CHR ''='' nv)),
                 unquote (plus_to_space (after CHR ''='' nv)))
      else None)"

definition parse_qsl :: "string \<Rightarrow> (string \<times> string) list" where
  "parse_qsl qs = List.map_filter parse_field (split_all CHR ''&'' qs)"

text \<open>
  A Python \<^verbatim>\<open>dict\<close> keeps its keys in insertion order, and \<^verbatim>\<open>urlencode\<close> walks them in
  that order: an association list with distinct keys.
\<close>

type_synonym qdict = "(string \<times> string list) list"

fun dict_add :: "qdict \<Rightarrow> string \<times> string \<Rightarrow> qdict" where
  "dict_add [] (name, v) = [(name, [v])]"
| "dict_add ((k, vs) # d) (name, v) =
     (if k = name then (k, vs @ [v]) # d else (k, vs) # dict_add d (name, v))"

definition parse_qs :: "string \<Rightarrow> qdict" where
  "parse_qs qs = foldl dict_add [] (parse_qsl qs)"

text \<open>\<^verbatim>\<open>d.pop(key, None)\<close>, keeping the dictionary only.\<close>

definition dict_pop :: "qdict \<Rightarrow> string \<Rightarrow> qdict" where
  "dict_pop d key = filter (\<lambda>kv. fst kv \<noteq> key) d"

fun join :: "string \<Rightarrow> string list \<Rightarrow> string" where
  "join sep [] = []"
| "join sep [x] = x"
| "join sep (x # y # ys) = x @ sep @ join sep (y # ys)"

text \<open>\<^verbatim>\<open>urlencode(d, doseq=True)\<close> on a dictionary of string lists.\<close>

definition urlencode :: "qdict \<Rightarrow> string" where
  "urlencode d =
     join ''&'' (concat (map (\<lambda>(k, vs). map (\<lambda>v. quote_plus k @ ''='' @ quote_plus v) vs) d))"

section \<open>The scraper: cleaning and tagging a URL\<close>

text \<open>
  \<^verbatim>\<open>
  def clean_url(url: str) -> str:
      parsed = urlparse(url)
      query = parse_qs(parsed.query)
      for bad in ["tag","affid","ref","utm_source","utm_medium","utm_campaign"]:
          query.pop(bad, None)
      return urlunparse(parsed._replace(query=urlencode(query, doseq=True)))
  \<close>
\<close>

definition bad_params :: "string list" where
  "bad_params = [''tag'', ''affid'', ''ref'', ''utm_source'', ''utm_medium'', ''utm_campaign'']"

definition clean_query :: "string \<Rightarrow> string" where
  "clean_query qs = urlencode (foldl dict_pop (parse_qs qs) bad_params)"

definition clean_url :: "string \<Rightarrow> py_error + string" where
  "clean_url url =
     (case urlparse url of
        Inl e \<Rightarrow> Inl e
      | Inr parsed \<Rightarrow> Inr (urlunparse (parsed\<lparr>query := clean_query (query parsed)\<rparr>)))"

text \<open>
  \<^verbatim>\<open>
  AFFILIATE_TAGS = {
      "amazon.com": os.getenv("AMAZON_TAG_US", "mytag-20"),
      "amazon.ca": os.getenv("AMAZON_TAG_CA", "mytagca-20"),
  }

  def add_affiliate(url: str) -> str:
      for domain, tag in AFFILIATE_TAGS.items():
          if domain in url:
              base = clean_url(url)
              sep = "&" if "?" in base else "?"
              return f"{base}{sep}tag={tag}"
      return clean_url(url)
  \<close>
  The dictionary is walked in its declared order. \<open>add_affiliate\<close> takes it as an
  argument; the scraper's own dictionary is \<open>AFFILIATE_TAGS\<close> below, built from the
  environment.
\<close>

type_synonym tag_dict = "(string \<times> string) list"

fun add_affiliate :: "tag_dict \<Rightarrow> string \<Rightarrow> py_error + string" where
  "add_affiliate [] url = clean_url url"
| "add_affiliate ((domain, tag) # items) url =
     (if py_in domain url then
        (case clean_url url of
           Inl e \<Rightarrow> Inl e
         | Inr base \<Rightarrow>
             Inr (base @ (if py_in ''?'' base then ''&'' else ''?'') @ ''tag='' @ tag))
      else add_affiliate items url)"

section \<open>The scraper: network, models and the pipeline\<close>

text \<open>
  Everything outside the program is a field of \<open>world\<close>: the HTTP client, feedparser,
  BeautifulSoup, Playwright, pydantic's URL validator, the JSON encoder, the file
  system's answers, and the environment variables.
  \<^item> \<open>client_get log url\<close> is \<^verbatim>\<open>client.get(url)\<close> after the requests \<open>log\<close> were made:
    \<open>None\<close> when it raises (timeout, refused connection, too many redirects, bad URL).
  \<^item> \<open>feedparser_entries url\<close> is \<^verbatim>\<open>feedparser.parse(url).entries\<close>; feedparser does not
    raise on an unreachable or unparsable feed, it returns no entries.
  \<^item> \<open>soup_hrefs html\<close> is the \<^verbatim>\<open>href\<close> of every element of
    \<^verbatim>\<open>BeautifulSoup(html, "html.parser").find_all("a", href=True)\<close>, in document order.
  \<^item> \<open>playwright url\<close> is the page content of the headless render, \<open>None\<close> when it raises.
  \<^item> \<open>HttpUrl s\<close> tells whether pydantic accepts \<open>s\<close> for a field of type \<^verbatim>\<open>HttpUrl\<close>.
\<close>

record response =
  r_url :: string
  r_text :: string

record entry =
  e_title :: "string option"
  e_link :: "string option"

text \<open>
  \<^verbatim>\<open>
  class ProcessedLink(BaseModel):
      original: HttpUrl
      resolved: HttpUrl
      final: HttpUrl
      is_affiliate: bool

  class FeedItem(BaseModel):
      title: str
      link: HttpUrl
      processed_links: List[ProcessedLink]
  \<close>
  These are the classes of \<^verbatim>\<open>scraper/models.py\<close> that \<^verbatim>\<open>process_link\<close> and \<^verbatim>\<open>scrape_feed\<close>
  construct: a ProcessedLink has these four fields and no other.
\<close>

record ProcessedLink =
  original :: string
  resolved :: string
  final :: string
  is_affiliate :: bool

record FeedItem =
  title :: string
  link :: string
  processed_links :: "ProcessedLink list"

record world =
  client_get :: "string list \<Rightarrow> string \<Rightarrow> response option"
  feedparser_entries :: "string \<Rightarrow> entry list"
  soup_hrefs :: "string \<Rightarrow> string list"
  playwright :: "string \<Rightarrow> string option"
  HttpUrl :: "string \<Rightarrow> bool"
  json_dump :: "FeedItem list \<Rightarrow> string"
  makedirs_ok :: bool
  open_ok :: bool
  write_fails_after :: "nat option"
  AMAZON_TAG_US :: string
  AMAZON_TAG_CA :: string
  USE_PLAYWRIGHT :: bool
  OUTPUT_FILE :: string
  RSS_SOURCES :: string

text \<open>A stateful step returns its result or exception, and the log of requests made.\<close>

type_synonym 'a step = "(py_error + 'a) \<times> string list"

text \<open>
  \<^verbatim>\<open>
  def resolve_url(url: str) -> str:
      try:
          r = client.get(url)
          return str(r.url)
      except: return url
  \<close>
\<close>

definition resolve_url :: "world \<Rightarrow> string \<Rightarrow> string list \<Rightarrow> string \<times> string list" where
  "resolve_url W url log =
     ((case client_get W log url of Some r \<Rightarrow> r_url r | None \<Rightarrow> url), log @ [url])"

text \<open>
  \<^verbatim>\<open>
  def fetch_js_content(url: str) -> str:
      if not USE_PLAYWRIGHT:
          return ""
      try:
          with sync_playwright() as p:
              ...
              html = page.content()
              browser.close()
              return html
      except Exception as e:
          print(f"[!] Playwright failed: {e}")
          return ""

  def fetch_content(url: str) -> str:
      try:
          r = client.get(url)
          if "<html" in r.text.lower(): return r.text
          raise ValueError("No HTML")
      except:
          return fetch_js_content(url) if USE_PLAYWRIGHT else ""
  \<close>
  No character outside ASCII lower-cases to one of \<^verbatim>\<open><html\<close>, so the test is the ASCII
  one on the UTF-8 view.
\<close>

definition fetch_js_content :: "world \<Rightarrow> string \<Rightarrow> string" where
  "fetch_js_content W url =
     (if \<not> USE_PLAYWRIGHT W then []
      else (case playwright W url of Some html \<Rightarrow> html | None \<Rightarrow> []))"

definition fetch_content :: "world \<Rightarrow> string \<Rightarrow> string list \<Rightarrow> string \<times> string list" where
  "fetch_content W url log =
     ((case client_get W log url of
         Some r \<Rightarrow>
           if py_in ''<html'' (map ascii_lower (r_text r)) then r_text r
           else (if USE_PLAYWRIGHT W then fetch_js_content W url else [])
       | None \<Rightarrow> (if USE_PLAYWRIGHT W then fetch_js_content W url else [])),
      log @ [url])"

text \<open>Constructing a model validates its \<^verbatim>\<open>HttpUrl\<close> fields and raises on failure.\<close>

definition new_ProcessedLink ::
    "world \<Rightarrow> string \<Rightarrow> string \<Rightarrow> string \<Rightarrow> bool \<Rightarrow> py_error + ProcessedLink" where
  "new_ProcessedLink W orig res fin aff =
     (if HttpUrl W orig \<and> HttpUrl W res \<and> HttpUrl W fin
      then Inr \<lparr>original = orig, resolved = res, final = fin, is_affiliate = aff\<rparr>
      else Inl ValidationError)"

definition new_FeedItem ::
    "world \<Rightarrow> string \<Rightarrow> string \<Rightarrow> ProcessedLink list \<Rightarrow> py_error + FeedItem" where
  "new_FeedItem W t l links =
     (if HttpUrl W l then Inr \<lparr>title = t, link = l, processed_links = links\<rparr>
      else Inl ValidationError)"

definition AFFILIATE_TAGS :: "world \<Rightarrow> tag_dict" where
  "AFFILIATE_TAGS W = [(''amazon.com'', AMAZON_TAG_US W), (''amazon.ca'', AMAZON_TAG_CA W)]"

text \<open>
  \<^verbatim>\<open>
  def process_link(original_url: str, rss_domain: str) -> ProcessedLink:
      resolved = resolve_url(original_url)
      if rss_domain in resolved:
          return ProcessedLink(original=original_url,resolved=resolved,final=resolved,is_affiliate=False)
      final = add_affiliate(resolved)
      return ProcessedLink(original=original_url,resolved=resolved,final=final,is_affiliate=final!=resolved)
  \<close>
\<close>

definition process_link ::
    "world \<Rightarrow> string \<Rightarrow> string \<Rightarrow> string list \<Rightarrow> ProcessedLink step" where
  "process_link W original_url rss_domain log =
     (let (res, log1) = resolve_url W original_url log in
      if py_in rss_domain res then (new_ProcessedLink W original_url res res False, log1)
      else
        (case add_affiliate (AFFILIATE_TAGS W) res of
           Inl e \<Rightarrow> (Inl e, log1)
         | Inr fin \<Rightarrow> (new_ProcessedLink W original_url res fin (fin \<noteq> res), log1)))"

text \<open>
  \<^verbatim>\<open>
  def scrape_feed(feed_url: str):
      rss = feedparser.parse(feed_url); rss_domain = urlparse(feed_url).netloc; results = []
      for entry in rss.entries:
          links = []
          content_html = fetch_content(entry.link)
          soup = BeautifulSoup(content_html, "html.parser")
          for a in soup.find_all("a", href=True):
              links.append(process_link(a["href"], rss_domain).dict())
          results.append(FeedItem(title=entry.title, link=entry.link, processed_links=links).dict())
      return results
  \<close>
  The inner loop, the body for one entry, and the outer loop. An exception leaves the
  loops at once.
\<close>

fun process_links ::
    "world \<Rightarrow> string list \<Rightarrow> string \<Rightarrow> string list \<Rightarrow> ProcessedLink list step" where
  "process_links W [] rss_domain log = (Inr [], log)"
| "process_links W (href # hrefs) rss_domain log =
     (case process_link W href rss_domain log of
        (Inl e, log1) \<Rightarrow> (Inl e, log1)
      | (Inr pl, log1) \<Rightarrow>
          (case process_links W hrefs rss_domain log1 of
             (Inl e, log2) \<Rightarrow> (Inl e, log2)
           | (Inr pls, log2) \<Rightarrow> (Inr (pl # pls), log2)))"

definition scrape_entry :: "world \<Rightarrow> entry \<Rightarrow> string \<Rightarrow> string list \<Rightarrow> FeedItem step" where
  "scrape_entry W e rss_domain log =
     (case e_link e of
        None \<Rightarrow> (Inl AttributeError, log)
      | Some l \<Rightarrow>
          let (content_html, log1) = fetch_content W l log in
          (case process_links W (soup_hrefs W content_html) rss_domain log1 of
             (Inl err, log2) \<Rightarrow> (Inl err, log2)
           | (Inr links, log2) \<Rightarrow>
               (case e_title e of
                  None \<Rightarrow> (Inl AttributeError, log2)
                | Some t \<Rightarrow> (new_FeedItem W t l links, log2))))"

fun scrape_entries ::
    "world \<Rightarrow> entry list \<Rightarrow> string \<Rightarrow> string list \<Rightarrow> FeedItem list step" where
  "scrape_entries W [] rss_domain log = (Inr [], log)"
| "scrape_entries W (e # es) rss_domain log =
     (case scrape_entry W e rss_domain log of
        (Inl err, log1) \<Rightarrow> (Inl err, log1)
      | (Inr item, log1) \<Rightarrow>
          (case scrape_entries W es rss_domain log1 of
             (Inl err, log2) \<Rightarrow> (Inl err, log2)
           | (Inr items, log2) \<Rightarrow> (Inr (item # items), log2)))"

definition scrape_feed :: "world \<Rightarrow> string \<Rightarrow> string list \<Rightarrow> FeedItem list step" where
  "scrape_feed W feed_url log =
     (case urlparse feed_url of
        Inl e \<Rightarrow> (Inl e, log)
      | Inr parsed \<Rightarrow> scrape_entries W (feedparser_entries W feed_url) (netloc parsed) log)"

subsection \<open>The run: all feeds, then the output file\<close>

text \<open>
  \<^verbatim>\<open>str.strip()\<close> removes the white space of Python at both ends: the code points
  U+0009 to U+000D, U+001C to U+0020, U+0085, U+00A0, U+1680, U+2000 to U+200A, U+2028,
  U+2029, U+202F, U+205F and U+3000, here in their UTF-8 encodings of one, two or three bytes.
\<close>

definition ws1 :: "char \<Rightarrow> bool" where
  "ws1 a = ((9 \<le> (of_char a :: nat) \<and> (of_char a :: nat) \<le> 13)
            \<or> (28 \<le> (of_char a :: nat) \<and> (of_char a :: nat) \<le> 32))"

definition ws2 :: "char \<Rightarrow> char \<Rightarrow> bool" where
  "ws2 a b = (a = CHR 0xC2 \<and> (b = CHR 0x85 \<or> b = CHR 0xA0))"

definition ws3 :: "char \<Rightarrow> char \<Rightarrow> char \<Rightarrow> bool" where
  "ws3 a b c =
     ((a = CHR 0xE1 \<and> b = CHR 0x9A \<and> c = CHR 0x80)
      \<or> (a = CHR 0xE2 \<and> b = CHR 0x80
          \<and> ((128 \<le> (of_char c :: nat) \<and> (of_char c :: nat) \<le> 138)
              \<or> c = CHR 0xA8 \<or> c = CHR 0xA9 \<or> c = CHR 0xAF))
      \<or> (a = CHR 0xE2 \<and> b = CHR 0x81 \<and> c = CHR 0x9F)
      \<or> (a = CHR 0xE3 \<and> b = CHR 0x80 \<and> c = CHR 0x80))"

fun lstrip :: "string \<Rightarrow> string" where
  "lstrip (a # b # c # s) =
     (if ws1 a then lstrip (b # c # s)
      else if ws2 a b then lstrip (c # s)
      else if ws3 a b c then lstrip s
      else a # b # c # s)"
| "lstrip [a, b] = (if ws1 a then lstrip [b] else if ws2 a b then [] else [a, b])"
| "lstrip [a] = (if ws1 a then [] else [a])"
| "lstrip [] = []"

text \<open>The same from the right end, on the reversed string.\<close>

fun rstrip_rev :: "string \<Rightarrow> string" where
  "rstrip_rev (c # b # a # s) =
     (if ws1 c then rstrip_rev (b # a # s)
      else if ws2 b c then rstrip_rev (a # s)
      else if ws3 a b c then rstrip_rev s
      else c # b # a # s)"
| "rstrip_rev [b, a] = (if ws1 b then rstrip_rev [a] else if ws2 a b then [] else [b, a])"
| "rstrip_rev [a] = (if ws1 a then [] else [a])"
| "rstrip_rev [] = []"

definition strip :: "string \<Rightarrow> string" where
  "strip s = rev (rstrip_rev (rev (lstrip s)))"

text \<open>
  \<^verbatim>\<open>
  FEED_SOURCES = os.getenv("RSS_SOURCES", "").split(",")
  OUTPUT_FILE = os.getenv("OUTPUT_JSON", "data/deals.json")

  def main():
      all_items = [item for feed in FEED_SOURCES if feed.strip() for item in scrape_feed(feed.strip())]
      os.makedirs(os.path.dirname(OUTPUT_FILE), exist_ok=True)
      with open(OUTPUT_FILE,"w") as f: json.dump(all_items,f,indent=2)
      print(f"[+] Scraping complete \<rightarrow> {OUTPUT_FILE}")
  \<close>
\<close>

definition FEED_SOURCES :: "world \<Rightarrow> string list" where
  "FEED_SOURCES W = split_all CHR '','' (RSS_SOURCES W)"

fun all_items :: "world \<Rightarrow> string list \<Rightarrow> string list \<Rightarrow> FeedItem list step" where
  "all_items W [] log = (Inr [], log)"
| "all_items W (feed # feeds) log =
     (if strip feed = [] then all_items W feeds log
      else
        (case scrape_feed W (strip feed) log of
           (Inl e, log1) \<Rightarrow> (Inl e, log1)
         | (Inr items, log1) \<Rightarrow>
             (case all_items W feeds log1 of
                (Inl e, log2) \<Rightarrow> (Inl e, log2)
              | (Inr rest, log2) \<Rightarrow> (Inr (items @ rest), log2))))"

text \<open>\<^verbatim>\<open>os.path.dirname\<close> of posixpath.\<close>

definition dirname :: "string \<Rightarrow> string" where
  "dirname p =
     (let head = take (length p - length (last_segment p)) p in
      if head \<noteq> [] \<and> \<not> list_all (\<lambda>c. c = CHR ''/'') head
      then rev (dropWhile (\<lambda>c. c = CHR ''/'') (rev head))
      else head)"

text \<open>
  The run and the output file. \<open>main W old\<close> starts with the file holding \<open>old\<close>
  (\<open>None\<close>: no such file) and returns the outcome together with the contents the file
  holds one after the other, the first being \<open>old\<close>: what a reader of the file can
  see. \<^verbatim>\<open>os.makedirs('')\<close> raises; \<^verbatim>\<open>open(..., "w")\<close> truncates the file before anything is
  written; when writing raises after some characters, those stay in the file.
\<close>

definition main :: "world \<Rightarrow> string option \<Rightarrow> (py_error + unit) \<times> string option list" where
  "main W old =
     (case fst (all_items W (FEED_SOURCES W) []) of
        Inl e \<Rightarrow> (Inl e, [old])
      | Inr items \<Rightarrow>
          if dirname (OUTPUT_FILE W) = [] \<or> \<not> makedirs_ok W then (Inl OSError, [old])
          else if \<not> open_ok W then (Inl OSError, [old])
          else
            (case write_fails_after W of
               None \<Rightarrow> (Inr (), [old, Some [], Some (json_dump W items)])
             | Some n \<Rightarrow>
                 (Inl OSError, [old, Some [], Some (take n (json_dump W items))])))"

section \<open>The frontend hook: validating the snapshot\<close>

text \<open>
  \<^verbatim>\<open>useDeals.ts\<close> is TypeScript. A string is a sequence of UTF-16 code units. The value
  returned by \<^verbatim>\<open>response.json()\<close> is a \<open>json\<close>; an object is the list of its own properties
  (each name once), and \<open>None\<close> of \<open>json option\<close> is \<^verbatim>\<open>undefined\<close>. A number is a double:
  \<open>Dyadic m e\<close> is \<open>m * 2 ^ e\<close>.
\<close>

type_synonym jsstring = "16 word list"

datatype js_number = Dyadic int int | NegZero | PosInfinity | NegInfinity

datatype json =
    JNull
  | JBool bool
  | JNum js_number
  | JStr jsstring
  | JArr "json list"
  | JObj "(jsstring \<times> json) list"

definition js :: "string \<Rightarrow> jsstring" where
  "js s = map (\<lambda>c. of_nat (of_char c)) s"

fun nonzero :: "js_number \<Rightarrow> bool" where
  "nonzero (Dyadic m e) = (m \<noteq> 0)"
| "nonzero NegZero = False"
| "nonzero PosInfinity = True"
| "nonzero NegInfinity = True"

text \<open>\<^verbatim>\<open>!!v\<close>, \<^verbatim>\<open>typeof v\<close> and \<^verbatim>\<open>Array.isArray(v)\<close>.\<close>

fun truthy :: "json option \<Rightarrow> bool" where
  "truthy None = False"
| "truthy (Some JNull) = False"
| "truthy (Some (JBool b)) = b"
| "truthy (Some (JNum n)) = nonzero n"
| "truthy (Some (JStr s)) = (s \<noteq> [])"
| "truthy (Some (JArr xs)) = True"
| "truthy (Some (JObj kvs)) = True"

fun typeof :: "json option \<Rightarrow> string" where
  "typeof None = ''undefined''"
| "typeof (Some JNull) = ''object''"
| "typeof (Some (JBool b)) = ''boolean''"
| "typeof (Some (JNum n)) = ''number''"
| "typeof (Some (JStr s)) = ''string''"
| "typeof (Some (JArr xs)) = ''object''"
| "typeof (Some (JObj kvs)) = ''object''"

fun isArray :: "json option \<Rightarrow> bool" where
  "isArray (Some (JArr xs)) = True"
| "isArray v = False"

text \<open>
  Reading a property of a value whose \<^verbatim>\<open>typeof\<close> is \<^verbatim>\<open>object\<close> and which is not null. None
  of the ten names the hook reads is an index, \<^verbatim>\<open>length\<close> or a member of
  \<^verbatim>\<open>Array.prototype\<close> or \<^verbatim>\<open>Object.prototype\<close>, so an array has none of them and an object
  has those it owns.
\<close>

fun get :: "json \<Rightarrow> string \<Rightarrow> json option" where
  "get (JObj kvs) name = map_of kvs (js name)"
| "get v name = None"

text \<open>The string of a value known to be one, and the elements of a value known to be an array.\<close>

fun str_of :: "json option \<Rightarrow> jsstring" where
  "str_of (Some (JStr s)) = s"
| "str_of v = []"

fun elems_of :: "json option \<Rightarrow> json list" where
  "elems_of (Some (JArr xs)) = xs"
| "elems_of v = []"

text \<open>
  \<^verbatim>\<open>String.prototype.trim\<close> removes WhiteSpace and LineTerminator code units at both ends.
\<close>

definition js_space :: "16 word \<Rightarrow> bool" where
  "js_space c =
     (c = 0x0009 \<or> c = 0x000A \<or> c = 0x000B \<or> c = 0x000C \<or> c = 0x000D \<or> c = 0x0020
      \<or> c = 0x00A0 \<or> c = 0x1680 \<or> (0x2000 \<le> c \<and> c \<le> 0x200A) \<or> c = 0x2028 \<or> c = 0x2029
      \<or> c = 0x202F \<or> c = 0x205F \<or> c = 0x3000 \<or> c = 0xFEFF)"

definition trim :: "jsstring \<Rightarrow> jsstring" where
  "trim s = rev (dropWhile js_space (rev (dropWhile js_space s)))"

text \<open>
  \<^verbatim>\<open>
  function validateAndTransformDeal(data: any): FeedItem | null {
    try {
      if (!data || typeof data !== 'object') {
        return null;
      }
      const { title, link, published, summary, processed_links } = data;
      if (!title || typeof title !== 'string' || title.trim().length === 0) {
        console.warn('Invalid deal: missing or empty title');
        return null;
      }
      if (!link || typeof link !== 'string') {
        console.warn('Invalid deal: missing or invalid link');
        return null;
      }
      let validProcessedLinks = [];
      if (Array.isArray(processed_links)) {
        validProcessedLinks = processed_links
          .filter(linkData => {
            return linkData &&
                   typeof linkData === 'object' &&
                   typeof linkData.original === 'string' &&
                   typeof linkData.resolved === 'string' &&
                   typeof linkData.final === 'string' &&
                   typeof linkData.is_affiliate === 'boolean' &&
                   typeof linkData.network === 'string';
          })
          .map(linkData => ({
            original: linkData.original,
            resolved: linkData.resolved,
            final: linkData.final,
            is_affiliate: linkData.is_affiliate,
            network: linkData.network,
          }));
      }
      return {
        title: title.trim(),
        link: link,
        published: published || null,
        summary: summary && typeof summary === 'string' ? summary.trim() : '',
        processed_links: validProcessedLinks,
      };
    } catch (error) {
      console.warn('Failed to validate deal data:', error);
      return null;
    }
  }
  \<close>
  The returned object is a \<open>json\<close> again; \<open>None\<close> is the \<^verbatim>\<open>null\<close> result. No step of the body
  can throw on a \<open>json\<close>: every property is read from a non-null object.
\<close>

definition link_filter :: "json \<Rightarrow> bool" where
  "link_filter linkData =
     (truthy (Some linkData)
      \<and> typeof (Some linkData) = ''object''
      \<and> typeof (get linkData ''original'') = ''string''
      \<and> typeof (get linkData ''resolved'') = ''string''
      \<and> typeof (get linkData ''final'') = ''string''
      \<and> typeof (get linkData ''is_affiliate'') = ''boolean''
      \<and> typeof (get linkData ''network'') = ''string'')"

fun own_prop :: "string \<Rightarrow> json option \<Rightarrow> (jsstring \<times> json) list" where
  "own_prop name None = []"
| "own_prop name (Some v) = [(js name, v)]"

definition link_map :: "json \<Rightarrow> json" where
  "link_map linkData =
     JObj (own_prop ''original'' (get linkData ''original'')
         @ own_prop ''resolved'' (get linkData ''resolved'')
         @ own_prop ''final'' (get linkData ''final'')
         @ own_prop ''is_affiliate'' (get linkData ''is_affiliate'')
         @ own_prop ''network'' (get linkData ''network''))"

definition validateAndTransformDeal :: "json \<Rightarrow> json option" where
  "validateAndTransformDeal data =
     (if \<not> truthy (Some data) \<or> typeof (Some data) \<noteq> ''object'' then None
      else
        let title' = get data ''title''; link' = get data ''link'';
            published' = get data ''published''; summary' = get data ''summary'';
            processed_links' = get data ''processed_links''
        in
          if \<not> truthy title' \<or> typeof title' \<noteq> ''string'' \<or> length (trim (str_of title')) = 0
          then None
          else if \<not> truthy link' \<or> typeof link' \<noteq> ''string'' then None
          else
            let validProcessedLinks =
                  (if isArray processed_links'
                   then map link_map (filter link_filter (elems_of processed_links'))
                   else [])
            in Some (JObj
                 [(js ''title'', JStr (trim (str_of title'))),
                  (js ''link'', JStr (str_of link')),
                  (js ''published'',
                     (case published' of None \<Rightarrow> JNull
                      | Some v \<Rightarrow> if truthy published' then v else JNull)),
                  (js ''summary'',
                     JStr (if truthy summary' \<and> typeof summary' = ''string''
                           then trim (str_of summary') else [])),
                  (js ''processed_links'', JArr validProcessedLinks)]))"

text \<open>
  \<^verbatim>\<open>
  const validDeals = data
    .map(deal => validateAndTransformDeal(deal))
    .filter((deal): deal is FeedItem => deal !== null);
  \<close>
\<close>

definition validDeals :: "json list \<Rightarrow> json list" where
  "validDeals data = List.map_filter validateAndTransformDeal data"

section \<open>Notions used in the proofs about URLs\<close>

text \<open>
  The fields \<^verbatim>\<open>urlencode\<close> joins, and the two halves of what \<open>urlunsplit\<close> returns: the head
  (scheme, netloc and path) and the tail (query and fragment with their delimiters). A
  head character is one that is neither a delimiter of the tail nor deleted by \<open>urlsplit\<close>.
\<close>

definition encode_field :: "string \<times> string \<Rightarrow> string" where
  "encode_field kv = quote_plus (fst kv) @ ''='' @ quote_plus (snd kv)"

definition dict_pairs :: "qdict \<Rightarrow> (string \<times> string) list" where
  "dict_pairs d = concat (map (\<lambda>(k, vs). map (\<lambda>v. (k, v)) vs) d)"

definition head_char :: "char \<Rightarrow> bool" where
  "head_char c = (c \<noteq> CHR ''?'' \<and> c \<noteq> CHR ''#'' \<and> \<not> unsafe_byte c)"

definition tail_start :: "string \<Rightarrow> bool" where
  "tail_start t = (t = [] \<or> hd t = CHR ''?'' \<or> hd t = CHR ''#'')"

definition url_tail :: "string \<Rightarrow> string \<Rightarrow> string" where
  "url_tail q f = (if q \<noteq> [] then ''?'' @ q else []) @ (if f \<noteq> [] then ''#'' @ f else [])"

definition url_head :: "string \<Rightarrow> string \<Rightarrow> string \<Rightarrow> string" where
  "url_head sch nl url =
     (let url1 = (if nl \<noteq> [] \<or> (sch \<noteq> [] \<and> sch \<in> set uses_netloc) \<or> take 2 url = ''//''
                  then ''//'' @ nl @ (if url \<noteq> [] \<and> take 1 url \<noteq> ''/'' then ''/'' @ url else url)
                  else url)
      in if sch \<noteq> [] then sch @ '':'' @ url1 else url1)"

text \<open>
  Notions for rewriting a URL twice. \<open>utf8_ok s\<close> says that the bytes \<open>s\<close> are well-formed
  UTF-8, as the encoding of a Python \<^verbatim>\<open>str\<close> is: the sequences that \<open>utf8_replace\<close> keeps,
  and nothing else. \<open>plain_tag\<close> is a tag without \<^verbatim>\<open>#\<close>, \<^verbatim>\<open>&\<close>, tab, carriage return and line
  feed, as a tag is once \<open>urlsplit\<close> has deleted these three. A string \<open>requotes\<close> when
  quoting it and decoding the result gives it back; a dictionary of the shape \<^verbatim>\<open>parse_qs\<close>
  returns is \<open>normal_dict\<close>; \<open>cleaned\<close> is the loop of \<^verbatim>\<open>pop\<close> in \<open>clean_url\<close>. \<open>tagged\<close> is
  the string \<^verbatim>\<open>f"{base}{sep}tag={tag}"\<close> of \<open>add_affiliate\<close>, \<open>tagged_query\<close> the query
  string it amounts to, and \<open>matching_rule\<close> the first entry of the dictionary whose domain
  occurs in the URL. \<open>scheme_ok\<close> describes the schemes \<open>urlsplit\<close> returns, \<open>dir_part\<close> is a
  path without its last segment, \<open>path_params\<close> is the path \<open>urlunparse\<close> hands to
  \<open>urlunsplit\<close>, \<open>scheme_colon\<close> is the scheme as \<open>urlunsplit\<close> writes it, and \<open>slashed\<close> is
  the path as it writes it after a netloc.
\<close>

fun utf8_ok :: "string \<Rightarrow> bool" where
  "utf8_ok [] = True"
| "utf8_ok (b # bs) =
     (if (of_char b :: nat) < 128 then utf8_ok bs
      else if 194 \<le> (of_char b :: nat) \<and> (of_char b :: nat) \<le> 223 then
        (case bs of
           [] \<Rightarrow> False
         | c # cs \<Rightarrow> cont_byte c \<and> utf8_ok cs)
      else if 224 \<le> (of_char b :: nat) \<and> (of_char b :: nat) \<le> 239 then
        (case bs of
           [] \<Rightarrow> False
         | c # cs \<Rightarrow>
             (case cs of
                [] \<Rightarrow> False
              | d # ds \<Rightarrow> second_ok b c \<and> cont_byte d \<and> utf8_ok ds))
      else if 240 \<le> (of_char b :: nat) \<and> (of_char b :: nat) \<le> 244 then
        (case bs of
           [] \<Rightarrow> False
         | c # cs \<Rightarrow>
             (case cs of
                [] \<Rightarrow> False
              | d # ds \<Rightarrow>
                  (case ds of
                     [] \<Rightarrow> False
                   | e # es \<Rightarrow> second_ok b c \<and> cont_byte d \<and> cont_byte e \<and> utf8_ok es)))
      else False)"

definition plain_tag :: "string \<Rightarrow> bool" where
  "plain_tag t = list_all (\<lambda>c. c \<noteq> CHR ''#'' \<and> c \<noteq> CHR ''&'' \<and> \<not> unsafe_byte c) t"

definition requotes :: "string \<Rightarrow> bool" where
  "requotes s = (unquote (plus_to_space (quote_plus s)) = s)"

definition normal_dict :: "qdict \<Rightarrow> bool" where
  "normal_dict d =
     (distinct (map fst d)
      \<and> (\<forall>kv \<in> set d. requotes (fst kv) \<and> snd kv \<noteq> []
                         \<and> (\<forall>v \<in> set (snd kv). v \<noteq> [] \<and> requotes v)))"

definition cleaned :: "qdict \<Rightarrow> qdict" where
  "cleaned d = foldl dict_pop d bad_params"

definition tagged_query :: "string \<Rightarrow> string \<Rightarrow> string" where
  "tagged_query q t = (if q = [] then ''tag='' @ t else q @ ''&tag='' @ t)"

definition tagged :: "string \<Rightarrow> string \<Rightarrow> string" where
  "tagged base t = base @ (if py_in ''?'' base then ''&'' else ''?'') @ ''tag='' @ t"

definition matching_rule :: "tag_dict \<Rightarrow> string \<Rightarrow> (string \<times> string) option" where
  "matching_rule tags url = List.find (\<lambda>item. py_in (fst item) url) tags"

definition scheme_ok :: "string \<Rightarrow> bool" where
  "scheme_ok s = (s = [] \<or> (CHR '':'' \<notin> set s \<and> list_all scheme_chars s \<and> is_alpha (hd s)
                             \<and> map ascii_lower s = s))"

definition dir_part :: "string \<Rightarrow> string" where
  "dir_part x = take (length x - length (last_segment x)) x"

definition path_params :: "string \<Rightarrow> string \<Rightarrow> string" where
  "path_params pa pr = (if pr \<noteq> [] then pa @ '';'' @ pr else pa)"

definition scheme_colon :: "string \<Rightarrow> string" where
  "scheme_colon sch = (if sch \<noteq> [] then sch @ '':'' else [])"

definition slashed :: "string \<Rightarrow> string" where
  "slashed x = (if x \<noteq> [] \<and> take 1 x \<noteq> ''/'' then ''/'' @ x else x)"

section \<open>What the frontend is to surface\<close>

text \<open>
  The words of the claim about the hook, as predicates on the objects it returns: a
  field is present with its declared type; a string is trimmed when it neither starts
  nor ends with white space.
\<close>

fun is_str :: "json option \<Rightarrow> bool" where
  "is_str (Some (JStr s)) = True"
| "is_str v = False"

fun is_bool :: "json option \<Rightarrow> bool" where
  "is_bool (Some (JBool b)) = True"
| "is_bool v = False"

definition trimmed :: "jsstring \<Rightarrow> bool" where
  "trimmed s = (s = [] \<or> (\<not> js_space (hd s) \<and> \<not> js_space (last s)))"

definition surfaced_link_ok :: "json \<Rightarrow> bool" where
  "surfaced_link_ok l =
     (is_str (get l ''original'') \<and> is_str (get l ''resolved'') \<and> is_str (get l ''final'')
      \<and> is_bool (get l ''is_affiliate'') \<and> is_str (get l ''network''))"

definition surfaced_item_ok :: "json \<Rightarrow> bool" where
  "surfaced_item_ok item =
     (is_str (get item ''title'') \<and> str_of (get item ''title'') \<noteq> []
      \<and> trimmed (str_of (get item ''title''))
      \<and> is_str (get item ''link'')
      \<and> is_str (get item ''summary'')
      \<and> get item ''published'' \<noteq> None
      \<and> isArray (get item ''processed_links'')
      \<and> list_all surfaced_link_ok (elems_of (get item ''processed_links'')))"

text \<open>The check a snapshot entry has to pass to be surfaced, in the words of the claim.\<close>

definition deal_checks :: "json \<Rightarrow> bool" where
  "deal_checks d =
     (is_str (get d ''title'') \<and> trim (str_of (get d ''title'')) \<noteq> []
      \<and> is_str (get d ''link''))"

text \<open>A snapshot of three entries: a good one, one without a title, and a number.\<close>

definition good_link :: json where
  "good_link =
     JObj [(js ''original'', JStr (js ''https://amzn.to/x'')),
           (js ''resolved'', JStr (js ''https://amazon.com/dp/X'')),
           (js ''final'', JStr (js ''https://amazon.com/dp/X?tag=new-20'')),
           (js ''is_affiliate'', JBool True),
           (js ''network'', JStr (js ''amazon''))]"

definition snapshot3 :: "json list" where
  "snapshot3 =
     [JObj [(js ''title'', JStr (js '' Deal '')),
            (js ''link'', JStr (js ''https://blog.example.com/deal'')),
            (js ''published'', JNull),
            (js ''processed_links'',
               JArr [good_link, JNull, JObj [(js ''original'', JStr (js ''x''))]])],
      JObj [(js ''link'', JStr (js ''https://blog.example.com/other''))],
      JNum (Dyadic 3 0)]"

section \<open>Concrete inputs\<close>

text \<open>
  The URL of the scenario of the specification, and a world where the network is down,
  every feed is empty and pydantic accepts what starts with \<^verbatim>\<open>http\<close>.
\<close>

definition amazon_url :: string where
  "amazon_url = ''https://amazon.com/dp/X?tag=old-20&ref=xyz''"

definition W_down :: world where
  "W_down =
     \<lparr>client_get = (\<lambda>log url. None),
      feedparser_entries = (\<lambda>url. []),
      soup_hrefs = (\<lambda>html. []),
      playwright = (\<lambda>url. None),
      HttpUrl = (\<lambda>s. starts_with ''http'' s),
      json_dump = (\<lambda>items. ''[]''),
      makedirs_ok = True, open_ok = True, write_fails_after = None,
      AMAZON_TAG_US = ''new-20'', AMAZON_TAG_CA = ''mytagca-20'',
      USE_PLAYWRIGHT = False, OUTPUT_FILE = ''data/deals.json'', RSS_SOURCES = []\<rparr>"

text \<open>
  A URL with a tracking parameter and no affiliate domain, a URL that \<open>urlparse\<close> rejects,
  and a world with one feed of one entry whose page holds one anchor, with target \<open>href\<close>.
  Only the entry's page answers; every other request fails.
\<close>

definition tracked_url :: string where
  "tracked_url = ''https://example.com/p?utm_source=x''"

definition broken_url :: string where
  "broken_url = ''http://[::1''"

definition blog_feed :: string where
  "blog_feed = ''https://blog.example.com/feed''"

definition blog_page :: "string \<Rightarrow> string" where
  "blog_page href = ''<html><body><a href='' @ href @ ''>link</a></body></html>''"

definition W_blog :: "string \<Rightarrow> world" where
  "W_blog href =
     \<lparr>client_get = (\<lambda>log url. if url = ''https://blog.example.com/deal''
                                 then Some \<lparr>r_url = url, r_text = blog_page href\<rparr>
                                 else None),
      feedparser_entries =
        (\<lambda>url. if url = blog_feed
               then [\<lparr>e_title = Some ''Deal'', e_link = Some ''https://blog.example.com/deal''\<rparr>]
               else []),
      soup_hrefs = (\<lambda>html. if html = blog_page href then [href] else []),
      playwright = (\<lambda>url. None),
      HttpUrl = (\<lambda>s. starts_with ''http'' s),
      json_dump = (\<lambda>items. if items = [] then ''[]'' else ''[...]''),
      makedirs_ok = True, open_ok = True, write_fails_after = None,
      AMAZON_TAG_US = ''new-20'', AMAZON_TAG_CA = ''mytagca-20'',
      USE_PLAYWRIGHT = False, OUTPUT_FILE = ''data/deals.json'', RSS_SOURCES = blog_feed\<rparr>"

text \<open>
  A URL that cleaning leaves as it is, an anchor that points back to the blog, a feed that
  does not answer, and a world where every request is answered without a redirect.
\<close>

definition plain_url :: string where
  "plain_url = ''https://example.com/p?id=7''"

definition about_url :: string where
  "about_url = ''https://blog.example.com/about''"

definition dead_feed :: string where
  "dead_feed = ''https://dead.example.org/feed''"

definition W_up :: world where
  "W_up = W_down\<lparr>client_get := (\<lambda>log url. Some \<lparr>r_url = url, r_text = []\<rparr>)\<rparr>"

text \<open>URLs with tracking parameters that are, and are not, on the list of \<open>clean_url\<close>.\<close>

definition content_url :: string where
  "content_url = ''https://example.com/p?utm_content=x''"

definition mixed_url :: string where
  "mixed_url = ''https://example.com/p?utm_source=x&utm_content=y&ref=z&id=7''"

text \<open>
  A URL where the affiliate domain occurs only in a parameter that cleaning removes, and
  an Amazon URL with a fragment.
\<close>

definition stripped_only_url :: string where
  "stripped_only_url = ''https://example.com/?ref=amazon.com''"

definition fragment_url :: string where
  "fragment_url = ''https://amazon.com/dp/X#frag''"

section \<open>The scenario of the Amazon link\<close>

lemma clean_amazon_url: "clean_url amazon_url = Inr ''https://amazon.com/dp/X''"
  unfolding amazon_url_def by code_simp

lemma amazon_in_url: "py_in ''amazon.com'' amazon_url"
  unfolding amazon_url_def by code_simp

lemma add_affiliate_amazon_url:
  "add_affiliate ((''amazon.com'', ''new-20'') # items) amazon_url
     = Inr ''https://amazon.com/dp/X?tag=new-20''"
  by (simp add: clean_amazon_url amazon_in_url)

text \<open>
  Claim C2. The link \<^verbatim>\<open>https://amazon.com/dp/X?tag=old-20&ref=xyz\<close> under the rule
  \<^verbatim>\<open>amazon.com\<close> with tag \<^verbatim>\<open>new-20\<close>: when redirect resolution leaves the URL as it is, the
  feed's domain does not occur in it and pydantic accepts the URLs, \<open>process_link\<close> returns
  a ProcessedLink whose original is the input, whose final is
  \<^verbatim>\<open>https://amazon.com/dp/X?tag=new-20\<close> (it contains \<^verbatim>\<open>tag=new-20\<close>, and neither \<^verbatim>\<open>ref\<close> nor
  \<^verbatim>\<open>old-20\<close>), and whose is_affiliate is true.
\<close>

theorem amazon_scenario:
  assumes "AMAZON_TAG_US W = ''new-20''"
    and "fst (resolve_url W amazon_url log) = amazon_url"
    and "\<not> py_in rss_domain amazon_url"
    and "HttpUrl W amazon_url"
    and "HttpUrl W ''https://amazon.com/dp/X?tag=new-20''"
  shows "\<exists>pl. fst (process_link W amazon_url rss_domain log) = Inr pl
          \<and> original pl = ''https://amazon.com/dp/X?tag=old-20&ref=xyz''
          \<and> final pl = ''https://amazon.com/dp/X?tag=new-20''
          \<and> py_in ''tag=new-20'' (final pl)
          \<and> \<not> py_in ''ref'' (final pl)
          \<and> \<not> py_in ''old-20'' (final pl)
          \<and> is_affiliate pl"
proof -
  have r: "resolve_url W amazon_url log = (amazon_url, log @ [amazon_url])"
    using assms(2) by (simp add: resolve_url_def)
  have a: "add_affiliate (AFFILIATE_TAGS W) amazon_url = Inr ''https://amazon.com/dp/X?tag=new-20''"
    unfolding AFFILIATE_TAGS_def assms(1) by (rule add_affiliate_amazon_url)
  have ne: "''https://amazon.com/dp/X?tag=new-20'' \<noteq> amazon_url"
    by (simp add: amazon_url_def)
  have c1: "py_in ''tag=new-20'' ''https://amazon.com/dp/X?tag=new-20''" by code_simp
  have c2: "\<not> py_in ''ref'' ''https://amazon.com/dp/X?tag=new-20''" by code_simp
  have c3: "\<not> py_in ''old-20'' ''https://amazon.com/dp/X?tag=new-20''" by code_simp
  have "fst (process_link W amazon_url rss_domain log)
          = new_ProcessedLink W amazon_url amazon_url ''https://amazon.com/dp/X?tag=new-20'' True"
    using assms(3) ne by (simp add: process_link_def r a)
  also have "\<dots> = Inr \<lparr>original = amazon_url, resolved = amazon_url,
                 final = ''https://amazon.com/dp/X?tag=new-20'', is_affiliate = True\<rparr>"
    using assms(4,5) by (simp add: new_ProcessedLink_def)
  finally show ?thesis
    using c1 c2 c3 by (simp add: amazon_url_def)
qed

theorem amazon_scenario_witness:
  "AMAZON_TAG_US W_down = ''new-20''
   \<and> fst (resolve_url W_down amazon_url []) = amazon_url
   \<and> \<not> py_in ''blog.example.com'' amazon_url
   \<and> HttpUrl W_down amazon_url
   \<and> HttpUrl W_down ''https://amazon.com/dp/X?tag=new-20''
   \<and> (\<exists>pl. fst (process_link W_down amazon_url ''blog.example.com'' []) = Inr pl
          \<and> original pl = ''https://amazon.com/dp/X?tag=old-20&ref=xyz''
          \<and> final pl = ''https://amazon.com/dp/X?tag=new-20''
          \<and> py_in ''tag=new-20'' (final pl)
          \<and> \<not> py_in ''ref'' (final pl)
          \<and> \<not> py_in ''old-20'' (final pl)
          \<and> is_affiliate pl)"
proof -
  have h1: "AMAZON_TAG_US W_down = ''new-20''" by (simp add: W_down_def)
  have h2: "fst (resolve_url W_down amazon_url []) = amazon_url"
    by (simp add: resolve_url_def W_down_def)
  have h3: "\<not> py_in ''blog.example.com'' amazon_url"
    unfolding amazon_url_def by code_simp
  have h4: "HttpUrl W_down amazon_url" by (simp add: W_down_def amazon_url_def)
  have h5: "HttpUrl W_down ''https://amazon.com/dp/X?tag=new-20''" by (simp add: W_down_def)
  show ?thesis
    using h1 h2 h3 h4 h5 amazon_scenario [OF h1 h2 h3 h4 h5] by simp
qed

section \<open>Links that match no affiliate rule\<close>

lemma add_affiliate_no_match:
  "\<forall>item \<in> set items. \<not> py_in (fst item) url \<Longrightarrow> add_affiliate items url = clean_url url"
  by (induction items) auto

theorem untouched_counterexample:
  "\<not> py_in ''amazon.com'' tracked_url \<and> \<not> py_in ''amazon.ca'' tracked_url
   \<and> fst (process_link W_down tracked_url ''blog.example.com'' [])
       = Inr \<lparr>original = ''https://example.com/p?utm_source=x'',
               resolved = ''https://example.com/p?utm_source=x'',
               final = ''https://example.com/p'', is_affiliate = True\<rparr>"
  by code_simp

text \<open>
  Claim C1, amended. A link whose resolved URL matches no affiliate rule, with URLs that
  parse and that pydantic accepts, yields a ProcessedLink whose final is the resolved URL
  itself when the feed's domain occurs in it, and otherwise the resolved URL as
  \<open>clean_url\<close> returns it (tracking parameters removed, query re-encoded). When cleaning
  changes nothing, final equals resolved and is_affiliate is false. The ProcessedLink of
  the scraper has the fields original, resolved, final and is_affiliate only.
\<close>

theorem no_rule_link:
  assumes "\<forall>item \<in> set (AFFILIATE_TAGS W). \<not> py_in (fst item) (fst (resolve_url W u log))"
    and "clean_url (fst (resolve_url W u log)) = Inr c"
    and "HttpUrl W u" and "HttpUrl W (fst (resolve_url W u log))" and "HttpUrl W c"
  shows "\<exists>pl. fst (process_link W u rss_domain log) = Inr pl
          \<and> original pl = u
          \<and> resolved pl = fst (resolve_url W u log)
          \<and> final pl = (if py_in rss_domain (resolved pl) then resolved pl else c)
          \<and> (c = resolved pl \<longrightarrow> final pl = resolved pl \<and> \<not> is_affiliate pl)"
proof -
  obtain res log1 where r: "resolve_url W u log = (res, log1)"
    by (cases "resolve_url W u log")
  have a: "add_affiliate (AFFILIATE_TAGS W) res = Inr c"
    using assms(1,2) by (simp add: r add_affiliate_no_match)
  show ?thesis
    using assms(3,4,5) by (simp add: process_link_def r a new_ProcessedLink_def)
qed

theorem no_rule_link_witness:
  "\<not> py_in ''amazon.com'' plain_url \<and> \<not> py_in ''amazon.ca'' plain_url
   \<and> fst (resolve_url W_down plain_url []) = plain_url
   \<and> clean_url plain_url = Inr plain_url
   \<and> HttpUrl W_down plain_url
   \<and> (\<exists>pl. fst (process_link W_down plain_url ''blog.example.com'' []) = Inr pl
          \<and> original pl = plain_url \<and> resolved pl = plain_url \<and> final pl = plain_url
          \<and> \<not> is_affiliate pl)"
proof -
  have r: "fst (resolve_url W_down plain_url []) = plain_url"
    by (simp add: resolve_url_def W_down_def)
  have n1: "\<not> py_in ''amazon.com'' plain_url" unfolding plain_url_def by code_simp
  have n2: "\<not> py_in ''amazon.ca'' plain_url" unfolding plain_url_def by code_simp
  have n3: "\<not> py_in ''blog.example.com'' plain_url" unfolding plain_url_def by code_simp
  have h1: "\<forall>item \<in> set (AFFILIATE_TAGS W_down).
              \<not> py_in (fst item) (fst (resolve_url W_down plain_url []))"
    using n1 n2 by (simp add: r AFFILIATE_TAGS_def)
  have c: "clean_url plain_url = Inr plain_url" unfolding plain_url_def by code_simp
  have h2: "clean_url (fst (resolve_url W_down plain_url [])) = Inr plain_url"
    by (simp add: r c)
  have h3: "HttpUrl W_down plain_url" by (simp add: W_down_def plain_url_def)
  have h4: "HttpUrl W_down (fst (resolve_url W_down plain_url []))"
    unfolding r by (rule h3)
  from no_rule_link [OF h1 h2 h3 h4 h3, of "''blog.example.com''"] n1 n2 n3 r c h3
  show ?thesis by auto
qed

section \<open>Links that point back to the feed's own domain\<close>








section \<open>A URL that does not parse\<close>

lemma add_affiliate_unparsable:
  "urlparse url = Inl e \<Longrightarrow> add_affiliate items url = Inl e"
  by (induction items) (auto simp: clean_url_def)

text \<open>
  Claim C7 fails on the code. \<open>urlparse\<close> raises \<^verbatim>\<open>ValueError\<close> on \<^verbatim>\<open>http://[::1\<close>;
  \<open>clean_url\<close> and \<open>add_affiliate\<close> do not catch it, so \<open>process_link\<close> raises, and a run
  whose only feed entry links to a page with that anchor ends with the exception and
  without touching the output file.
\<close>

theorem unparsable_url_aborts_run:
  "urlparse broken_url = Inl ValueError
   \<and> fst (process_link W_down broken_url ''blog.example.com'' []) = Inl ValueError
   \<and> main (W_blog broken_url) (Some ''[old]'') = (Inl ValueError, [Some ''[old]''])"
  by code_simp

section \<open>Redirect resolution and the requests it makes\<close>

lemma process_link_log: "snd (process_link W u d log) = log @ [u]"
  by (simp add: process_link_def resolve_url_def split: sum.splits)

lemma process_links_log:
  "fst (process_links W hrefs d log) = Inr pls \<Longrightarrow> snd (process_links W hrefs d log) = log @ hrefs"
proof (induction hrefs arbitrary: log pls)
  case Nil
  then show ?case by simp
next
  case (Cons h hs)
  obtain r1 log1 where p1: "process_link W h d log = (r1, log1)"
    by (cases "process_link W h d log")
  have l1: "log1 = log @ [h]" using process_link_log [of W h d log] p1 by simp
  from Cons.prems p1 obtain pl1 where r1: "r1 = Inr pl1"
    by (cases r1) auto
  obtain r2 log2 where p2: "process_links W hs d log1 = (r2, log2)"
    by (cases "process_links W hs d log1")
  from Cons.prems p1 r1 p2 obtain pls2 where r2: "r2 = Inr pls2"
    by (cases r2) auto
  have "log2 = log1 @ hs" using Cons.IH [of log1 pls2] p2 r2 by simp
  then show ?case using p1 r1 p2 r2 l1 by simp
qed

theorem cache_counterexample:
  "process_links W_up [plain_url, plain_url] ''blog.example.com'' []
     = (Inr [\<lparr>original = plain_url, resolved = plain_url, final = plain_url,
               is_affiliate = False\<rparr>,
             \<lparr>original = plain_url, resolved = plain_url, final = plain_url,
               is_affiliate = False\<rparr>],
        [plain_url, plain_url])"
  by code_simp

text \<open>
  Claim C6, amended. Redirect resolution keeps no cache: \<open>resolve_url\<close> makes one request
  for its argument on every call, whatever was requested before, and returns the URL the
  client ended on, or its argument when the request fails. So \<open>process_link\<close> makes one
  request per link, and processing a list of links makes one request per element of the
  list, repeated URLs included.
\<close>

theorem resolve_url_no_cache:
  "resolve_url W url log
     = ((case client_get W log url of Some r \<Rightarrow> r_url r | None \<Rightarrow> url), log @ [url])
   \<and> snd (process_link W url rss_domain log) = log @ [url]
   \<and> (fst (process_links W hrefs rss_domain log) = Inr pls
        \<longrightarrow> snd (process_links W hrefs rss_domain log) = log @ hrefs)"
  by (simp add: resolve_url_def process_link_log process_links_log)

theorem resolve_url_no_cache_witness:
  "fst (process_links W_up [plain_url, plain_url] ''blog.example.com'' [plain_url])
     = Inr [\<lparr>original = plain_url, resolved = plain_url, final = plain_url,
               is_affiliate = False\<rparr>,
             \<lparr>original = plain_url, resolved = plain_url, final = plain_url,
               is_affiliate = False\<rparr>]
   \<and> snd (process_links W_up [plain_url, plain_url] ''blog.example.com'' [plain_url])
       = [plain_url, plain_url, plain_url]"
proof -
  have f: "fst (process_links W_up [plain_url, plain_url] ''blog.example.com'' [plain_url])
     = Inr [\<lparr>original = plain_url, resolved = plain_url, final = plain_url,
               is_affiliate = False\<rparr>,
             \<lparr>original = plain_url, resolved = plain_url, final = plain_url,
               is_affiliate = False\<rparr>]"
    by code_simp
  from resolve_url_no_cache [of W_up plain_url "[plain_url]" "''blog.example.com''"
         "[plain_url, plain_url]"] f
  show ?thesis by simp
qed

section \<open>Writing the output file\<close>

theorem atomic_counterexample:
  "main (W_blog about_url) (Some ''[old]'')
     = (Inr (), [Some ''[old]'', Some [], Some ''[...]''])
   \<and> main ((W_blog about_url)\<lparr>write_fails_after := Some 2\<rparr>) (Some ''[old]'')
     = (Inl OSError, [Some ''[old]'', Some [], Some ''[.''])"
  by code_simp

text \<open>
  Claim C5, amended. The output file is rewritten in place. The run opens it only after
  every feed has been scraped and the directory made: when scraping raises, or the
  directory cannot be made, or the file cannot be opened, the previous snapshot is all
  the file ever holds. A run that succeeds truncates the file and then leaves the
  complete new snapshot in it.
\<close>

theorem output_rewritten_in_place:
  "(fst (all_items W (FEED_SOURCES W) []) = Inl e \<longrightarrow> main W old = (Inl e, [old]))
   \<and> (dirname (OUTPUT_FILE W) = [] \<or> \<not> makedirs_ok W \<or> \<not> open_ok W
        \<longrightarrow> snd (main W old) = [old])
   \<and> (fst (main W old) = Inr ()
        \<longrightarrow> (\<exists>items. fst (all_items W (FEED_SOURCES W) []) = Inr items
               \<and> snd (main W old) = [old, Some [], Some (json_dump W items)]))"
  by (auto simp: main_def split: sum.splits option.splits)

theorem output_rewritten_in_place_witness:
  "fst (all_items (W_blog about_url) (FEED_SOURCES (W_blog about_url)) [])
     = Inr [\<lparr>title = ''Deal'', link = ''https://blog.example.com/deal'',
              processed_links =
                [\<lparr>original = about_url, resolved = about_url, final = about_url,
                   is_affiliate = False\<rparr>]\<rparr>]
   \<and> fst (main (W_blog about_url) (Some ''[old]'')) = Inr ()
   \<and> snd (main (W_blog about_url) (Some ''[old]'')) = [Some ''[old]'', Some [], Some ''[...]'']
   \<and> fst (all_items (W_blog broken_url) (FEED_SOURCES (W_blog broken_url)) []) = Inl ValueError
   \<and> main (W_blog broken_url) (Some ''[old]'') = (Inl ValueError, [Some ''[old]''])
   \<and> open_ok ((W_blog about_url)\<lparr>open_ok := False\<rparr>) = False
   \<and> snd (main ((W_blog about_url)\<lparr>open_ok := False\<rparr>) (Some ''[old]'')) = [Some ''[old]'']"
proof -
  have a: "fst (all_items (W_blog about_url) (FEED_SOURCES (W_blog about_url)) [])
     = Inr [\<lparr>title = ''Deal'', link = ''https://blog.example.com/deal'',
              processed_links =
                [\<lparr>original = about_url, resolved = about_url, final = about_url,
                   is_affiliate = False\<rparr>]\<rparr>]"
    by code_simp
  have m: "fst (main (W_blog about_url) (Some ''[old]'')) = Inr ()"
    by code_simp
  have j: "json_dump (W_blog about_url)
             [\<lparr>title = ''Deal'', link = ''https://blog.example.com/deal'',
              processed_links =
                [\<lparr>original = about_url, resolved = about_url, final = about_url,
                   is_affiliate = False\<rparr>]\<rparr>] = ''[...]''"
    by code_simp
  have b: "fst (all_items (W_blog broken_url) (FEED_SOURCES (W_blog broken_url)) []) = Inl ValueError"
    by code_simp
  have c: "open_ok ((W_blog about_url)\<lparr>open_ok := False\<rparr>) = False" by simp
  from output_rewritten_in_place [of "W_blog about_url" _ "Some ''[old]''"]
       output_rewritten_in_place [of "W_blog broken_url" ValueError "Some ''[old]''"]
       output_rewritten_in_place [of "(W_blog about_url)\<lparr>open_ok := False\<rparr>" _ "Some ''[old]''"]
       a m j b c
  show ?thesis by simp
qed

section \<open>A feed that fails\<close>

lemma scrape_feed_no_entries:
  "feedparser_entries W url = [] \<Longrightarrow> urlparse url = Inr parsed \<Longrightarrow> scrape_feed W url log = (Inr [], log)"
  by (simp add: scrape_feed_def)

lemma all_items_skip:
  assumes "strip bad = [] \<or> scrape_feed W (strip bad) log = (Inr [], log)"
  shows "all_items W (bad # B) log = all_items W B log"
  using assms by (auto split: prod.splits sum.splits)

text \<open>
  A source that is unreachable, times out or has no parsable structure is one for which
  feedparser returns no entries. When \<open>urlparse\<close> accepts the URL of such a source, it
  contributes no item and makes no request, and the items and requests of the whole run
  are those of the run without it, wherever it stands in the list of sources.
\<close>

lemma failing_source_contributes_nothing:
  assumes "feedparser_entries W (strip bad) = []" and "urlparse (strip bad) = Inr parsed"
  shows "scrape_feed W (strip bad) log = (Inr [], log)
         \<and> all_items W (A @ bad # B) log = all_items W (A @ B) log"
proof
  show s: "scrape_feed W (strip bad) l = (Inr [], l)" for l
    using assms by (rule scrape_feed_no_entries)
  show "all_items W (A @ bad # B) log = all_items W (A @ B) log"
  proof (induction A arbitrary: log)
    case Nil
    show ?case using all_items_skip [of bad W log B] s by simp
  next
    case (Cons a A)
    show ?case by (simp add: Cons.IH split: prod.splits sum.splits)
  qed
qed

lemma failing_source_contributes_nothing_example:
  "feedparser_entries (W_blog about_url) (strip dead_feed) = []
   \<and> urlparse (strip dead_feed)
       = Inr \<lparr>scheme = ''https'', netloc = ''dead.example.org'', path = ''/feed'', params = [],
               query = [], fragment = []\<rparr>
   \<and> scrape_feed (W_blog about_url) (strip dead_feed) [] = (Inr [], [])
   \<and> all_items (W_blog about_url) [dead_feed, blog_feed] [] = all_items (W_blog about_url) [blog_feed] []
   \<and> all_items (W_blog about_url) [blog_feed, dead_feed] [] = all_items (W_blog about_url) [blog_feed] []
   \<and> all_items (W_blog about_url) [blog_feed] []
       = (Inr [\<lparr>title = ''Deal'', link = ''https://blog.example.com/deal'',
              processed_links =
                [\<lparr>original = about_url, resolved = about_url, final = about_url,
                   is_affiliate = False\<rparr>]\<rparr>],
          [''https://blog.example.com/deal'', about_url])"
proof -
  have h1: "feedparser_entries (W_blog about_url) (strip dead_feed) = []" by code_simp
  have h2: "urlparse (strip dead_feed)
       = Inr \<lparr>scheme = ''https'', netloc = ''dead.example.org'', path = ''/feed'', params = [],
               query = [], fragment = []\<rparr>" by code_simp
  have v: "all_items (W_blog about_url) [blog_feed] []
       = (Inr [\<lparr>title = ''Deal'', link = ''https://blog.example.com/deal'',
              processed_links =
                [\<lparr>original = about_url, resolved = about_url, final = about_url,
                   is_affiliate = False\<rparr>]\<rparr>],
          [''https://blog.example.com/deal'', about_url])" by code_simp
  from failing_source_contributes_nothing [OF h1 h2, of "[]" "[]" "[blog_feed]"]
       failing_source_contributes_nothing [OF h1 h2, of "[]" "[blog_feed]" "[]"]
       h1 h2 v
  show ?thesis by simp
qed

text \<open>
  Claim C9. The claim lets no failure of one source reach the others. \<open>scrape_feed\<close> takes
  the feed's domain with \<^verbatim>\<open>urlparse(feed_url).netloc\<close> outside any \<^verbatim>\<open>try\<close>, unlike
  \<open>resolve_url\<close> and \<open>fetch_content\<close>, which catch what their request raises. With the
  sources \<^verbatim>\<open>http://[::1\<close> and the blog's feed, the first source yields no entries, yet
  \<open>urlparse\<close> raises \<^verbatim>\<open>ValueError\<close> on its URL: the run ends with the exception and the
  output file keeps its old contents, whereas the blog's feed alone gives one item.
\<close>

theorem unparsable_source_aborts_run:
  "feedparser_entries (W_blog about_url) (strip broken_url) = []
   \<and> urlparse (strip broken_url) = Inl ValueError
   \<and> all_items (W_blog about_url) [broken_url, blog_feed] [] = (Inl ValueError, [])
   \<and> all_items (W_blog about_url) [blog_feed] []
       = (Inr [\<lparr>title = ''Deal'', link = ''https://blog.example.com/deal'',
              processed_links =
                [\<lparr>original = about_url, resolved = about_url, final = about_url,
                   is_affiliate = False\<rparr>]\<rparr>],
          [''https://blog.example.com/deal'', about_url])
   \<and> FEED_SOURCES (W_blog about_url\<lparr>RSS_SOURCES := broken_url @ '','' @ blog_feed\<rparr>)
       = [broken_url, blog_feed]
   \<and> main (W_blog about_url\<lparr>RSS_SOURCES := broken_url @ '','' @ blog_feed\<rparr>) (Some ''[old]'')
       = (Inl ValueError, [Some ''[old]''])
   \<and> main (W_blog about_url) (Some ''[old]'') = (Inr (), [Some ''[old]'', Some [], Some ''[...]''])"
  by code_simp

section \<open>The frontend hook\<close>

lemma typeof_string: "typeof v = ''string'' \<longleftrightarrow> is_str v"
  by (cases v rule: typeof.cases) simp_all

lemma typeof_boolean: "typeof v = ''boolean'' \<longleftrightarrow> is_bool v"
  by (cases v rule: typeof.cases) simp_all

lemma is_str_E: "is_str v \<Longrightarrow> \<exists>s. v = Some (JStr s)"
  by (cases v rule: is_str.cases) simp_all

lemma is_bool_E: "is_bool v \<Longrightarrow> \<exists>b. v = Some (JBool b)"
  by (cases v rule: is_bool.cases) simp_all

lemma trimmed_trim: "trimmed (trim s)"
proof (cases "trim s = []")
  case True
  then show ?thesis by (simp add: trimmed_def)
next
  case False
  define a where "a = dropWhile js_space s"
  define b where "b = dropWhile js_space (rev a)"
  have t: "trim s = rev b" by (simp add: trim_def a_def b_def)
  have bne: "b \<noteq> []" using False t by simp
  then have ane: "a \<noteq> []" by (auto simp: b_def)
  have "\<not> js_space (hd b)" using bne unfolding b_def by (rule hd_dropWhile)
  then have l: "\<not> js_space (last (trim s))" using bne by (simp add: t last_rev)
  have "last b = last (rev a)"
    using bne unfolding b_def
    by (metis append_Nil2 last_appendR takeWhile_dropWhile_id)
  then have "hd (trim s) = hd a" using bne ane by (simp add: t hd_rev last_rev)
  moreover have "\<not> js_space (hd a)" using ane unfolding a_def by (rule hd_dropWhile)
  ultimately show ?thesis using l by (simp add: trimmed_def)
qed

lemma link_filter_ok: "link_filter l \<Longrightarrow> surfaced_link_ok (link_map l)"
proof -
  assume f: "link_filter l"
  then obtain a b c d e where g:
    "get l ''original'' = Some (JStr a)" "get l ''resolved'' = Some (JStr b)"
    "get l ''final'' = Some (JStr c)" "get l ''is_affiliate'' = Some (JBool d)"
    "get l ''network'' = Some (JStr e)"
    unfolding link_filter_def typeof_string typeof_boolean
    by (meson is_str_E is_bool_E)
  show ?thesis
    by (simp add: link_map_def g surfaced_link_ok_def js_def)
qed

lemma link_filter_iff: "link_filter l \<longleftrightarrow> surfaced_link_ok l"
proof (cases l)
  case (JObj kvs)
  then show ?thesis
    by (simp add: link_filter_def surfaced_link_ok_def typeof_string typeof_boolean)
qed (simp_all add: link_filter_def surfaced_link_ok_def)

lemma validate_ok:
  assumes "validateAndTransformDeal d = Some item"
  shows "surfaced_item_ok item"
proof -
  from assms have t: "is_str (get d ''title'')" "trim (str_of (get d ''title'')) \<noteq> []"
    and l: "is_str (get d ''link'')"
    by (auto simp: validateAndTransformDeal_def Let_def typeof_string split: if_splits)
  from assms have item: "item = JObj
                 [(js ''title'', JStr (trim (str_of (get d ''title'')))),
                  (js ''link'', JStr (str_of (get d ''link''))),
                  (js ''published'',
                     (case get d ''published'' of None \<Rightarrow> JNull
                      | Some v \<Rightarrow> if truthy (get d ''published'') then v else JNull)),
                  (js ''summary'',
                     JStr (if truthy (get d ''summary'') \<and> typeof (get d ''summary'') = ''string''
                           then trim (str_of (get d ''summary'')) else [])),
                  (js ''processed_links'', JArr (if isArray (get d ''processed_links'')
                   then map link_map (filter link_filter (elems_of (get d ''processed_links'')))
                   else []))]"
    by (auto simp: validateAndTransformDeal_def Let_def split: if_splits)
  have links: "list_all surfaced_link_ok (if isArray (get d ''processed_links'')
                   then map link_map (filter link_filter (elems_of (get d ''processed_links'')))
                   else [])"
    by (auto simp: list_all_iff link_filter_ok)
  show ?thesis
    unfolding item surfaced_item_ok_def
    using t links trimmed_trim by (simp add: js_def)
qed

lemma validate_drops: "\<not> deal_checks d \<Longrightarrow> validateAndTransformDeal d = None"
  by (auto simp: validateAndTransformDeal_def deal_checks_def Let_def typeof_string)

text \<open>
  Claim C10. The hook is a total function on JSON values, so it never throws. Every
  entry it surfaces has a non-empty trimmed string title, a string link, a string
  summary, a published field that is a value or null, and an array processed_links
  whose entries have the five fields with their declared types. An entry of the snapshot
  that fails the checks on title and link is dropped, and so is every element of
  processed_links that lacks one of the five typed fields; the others are kept in order.
\<close>

theorem surfaced_deals_valid:
  "(\<forall>item \<in> set (validDeals data). surfaced_item_ok item)
   \<and> (\<forall>d \<in> set data. \<not> deal_checks d \<longrightarrow> validateAndTransformDeal d = None)
   \<and> (\<forall>d item links. validateAndTransformDeal d = Some item
         \<and> get d ''processed_links'' = Some (JArr links)
        \<longrightarrow> get item ''processed_links''
            = Some (JArr (map link_map (filter surfaced_link_ok links))))
   \<and> length (validDeals data) \<le> length data"
proof (intro conjI ballI allI impI)
  fix item assume "item \<in> set (validDeals data)"
  then obtain d where "validateAndTransformDeal d = Some item"
    by (auto simp: validDeals_def map_filter_def)
  then show "surfaced_item_ok item" by (rule validate_ok)
next
  fix d assume "\<not> deal_checks d"
  then show "validateAndTransformDeal d = None" by (rule validate_drops)
next
  fix d item links
  assume a: "validateAndTransformDeal d = Some item \<and> get d ''processed_links'' = Some (JArr links)"
  have "link_filter = surfaced_link_ok"
    by (rule ext) (rule link_filter_iff)
  then have "filter link_filter links = filter surfaced_link_ok links"
    by simp
  then show "get item ''processed_links'' = Some (JArr (map link_map (filter surfaced_link_ok links)))"
    using a by (auto simp: validateAndTransformDeal_def Let_def js_def split: if_splits)
next
  show "length (validDeals data) \<le> length data"
    by (simp add: validDeals_def map_filter_def)
qed

theorem surfaced_deals_valid_witness:
  "validDeals snapshot3
     = [JObj [(js ''title'', JStr (js ''Deal'')),
              (js ''link'', JStr (js ''https://blog.example.com/deal'')),
              (js ''published'', JNull),
              (js ''summary'', JStr []),
              (js ''processed_links'', JArr [good_link])]]
   \<and> surfaced_item_ok (hd (validDeals snapshot3))
   \<and> \<not> deal_checks (snapshot3 ! 1)
   \<and> validateAndTransformDeal (snapshot3 ! 1) = None
   \<and> validateAndTransformDeal (snapshot3 ! 2) = None
   \<and> length (validDeals snapshot3) \<le> length snapshot3"
proof -
  have v: "validDeals snapshot3
     = [JObj [(js ''title'', JStr (js ''Deal'')),
              (js ''link'', JStr (js ''https://blog.example.com/deal'')),
              (js ''published'', JNull),
              (js ''summary'', JStr []),
              (js ''processed_links'', JArr [good_link])]]"
    by code_simp
  have m: "hd (validDeals snapshot3) \<in> set (validDeals snapshot3)"
    by (simp add: v)
  have d: "\<not> deal_checks (snapshot3 ! 1)" by code_simp
  have n: "validateAndTransformDeal (snapshot3 ! 2) = None" by code_simp
  have i: "snapshot3 ! 1 \<in> set snapshot3" by (simp add: snapshot3_def)
  from surfaced_deals_valid [of snapshot3] m d n i v
  show ?thesis by blast
qed

section \<open>What cleaning removes from the query string\<close>

declare utf8_replace.simps [simp del]

lemma pct_decode_Cons: "c \<noteq> CHR ''%'' \<Longrightarrow> pct_decode (c # s) = c # pct_decode s"
  by (cases "(c # s)" rule: pct_decode.cases) auto

lemma pct_decode_id: "CHR ''%'' \<notin> set s \<Longrightarrow> pct_decode s = s"
  by (induction s) (auto simp: pct_decode_Cons)

lemma of_char_hex_digit:
  "n < 16 \<Longrightarrow> (of_char (hex_digit n) :: nat) = (if n < 10 then 48 + n else 55 + n)"
  by (simp add: hex_digit_def)

lemma hex_digit_val: "n < 16 \<Longrightarrow> is_hex (hex_digit n) \<and> hex_val (hex_digit n) = n"
  by (simp add: is_hex_def hex_val_def is_digit_def is_upper_def of_char_hex_digit)

lemma hex_digit_safe: "n < 16 \<Longrightarrow> always_safe (hex_digit n)"
  by (simp add: always_safe_def is_alpha_def is_digit_def is_upper_def of_char_hex_digit)

lemma always_safe_not:
  "always_safe c \<Longrightarrow> c \<noteq> CHR ''%'' \<and> c \<noteq> CHR ''+'' \<and> c \<noteq> CHR ''='' \<and> c \<noteq> CHR ''&''
      \<and> c \<noteq> CHR ''#'' \<and> c \<noteq> CHR ''?'' \<and> \<not> unsafe_byte c"
  by (auto simp: always_safe_def is_alpha_def is_upper_def is_lower_def is_digit_def
        unsafe_byte_def)

lemma of_char_less_256: "(of_char c :: nat) < 256"
proof -
  have "(of_char c :: nat) mod 256 = of_char c" by simp
  then show ?thesis by (metis mod_less_divisor zero_less_numeral)
qed

lemma pct_decode_escape:
  "pct_decode (CHR ''%'' # hex_digit ((of_char c :: nat) div 16)
                # hex_digit ((of_char c :: nat) mod 16) # s)
     = c # pct_decode s"
proof -
  have d: "(of_char c :: nat) div 16 < 16"
    using of_char_less_256 [of c] by (simp add: less_mult_imp_div_less)
  have m: "(of_char c :: nat) mod 16 < 16" by simp
  have "char_of (16 * ((of_char c :: nat) div 16) + (of_char c :: nat) mod 16) = c"
    by simp
  then show ?thesis
    using hex_digit_val [OF d] hex_digit_val [OF m] by simp
qed

lemma pct_decode_quote_plus: "pct_decode (plus_to_space (quote_plus k)) = k"
proof (induction k)
  case Nil
  then show ?case by (simp add: quote_plus_def plus_to_space_def)
next
  case (Cons c k)
  have q: "quote_plus (c # k) = quote_byte c @ quote_plus k"
    by (simp add: quote_plus_def)
  have p: "plus_to_space (a @ b) = plus_to_space a @ plus_to_space b" for a b
    by (simp add: plus_to_space_def)
  consider (safe) "always_safe c" | (space) "\<not> always_safe c" "c = CHR '' ''"
    | (esc) "\<not> always_safe c" "c \<noteq> CHR '' ''"
    by blast
  then show ?case
  proof cases
    case safe
    then have "c \<noteq> CHR ''%''" "c \<noteq> CHR ''+''"
      using always_safe_not by blast+
    then show ?thesis
      using safe Cons.IH by (simp add: q p quote_byte_def plus_to_space_def pct_decode_Cons)
  next
    case space
    then have "plus_to_space (quote_byte c) = [c]"
      by (simp add: quote_byte_def plus_to_space_def)
    then have "plus_to_space (quote_plus (c # k)) = c # plus_to_space (quote_plus k)"
      by (simp add: q p)
    then show ?thesis
      using space(2) Cons.IH by (simp add: pct_decode_Cons)
  next
    case esc
    have d: "(of_char c :: nat) div 16 < 16"
      using of_char_less_256 [of c] by (simp add: less_mult_imp_div_less)
    have m: "(of_char c :: nat) mod 16 < 16" by simp
    have h: "hex_digit ((of_char c :: nat) div 16) \<noteq> CHR ''+''"
            "hex_digit ((of_char c :: nat) mod 16) \<noteq> CHR ''+''"
      using hex_digit_safe [OF d] hex_digit_safe [OF m] always_safe_not by blast+
    have "plus_to_space (quote_byte c)
            = [CHR ''%'', hex_digit ((of_char c :: nat) div 16), hex_digit ((of_char c :: nat) mod 16)]"
      using esc h by (simp add: quote_byte_def plus_to_space_def)
    then show ?thesis
      using Cons.IH by (simp del: pct_decode.simps add: q p pct_decode_escape)
  qed
qed

lemma utf8_replace_head:
  "\<not> (of_char b :: nat) < 128 \<Longrightarrow> \<exists>c s. utf8_replace (b # bs) = c # s \<and> \<not> (of_char c :: nat) < 128"
  apply (subst utf8_replace.simps(2))
  apply (auto simp del: utf8_replace.simps simp add: FFFD_def split: list.splits)
  done

lemma utf8_replace_ascii:
  "\<forall>c \<in> set (utf8_replace k). (of_char c :: nat) < 128 \<Longrightarrow> utf8_replace k = k"
proof (induction k)
  case Nil
  then show ?case by (simp add: utf8_replace.simps(1))
next
  case (Cons b bs)
  show ?case
  proof (cases "(of_char b :: nat) < 128")
    case True
    then have u: "utf8_replace (b # bs) = b # utf8_replace bs"
      by (subst utf8_replace.simps(2)) simp
    then show ?thesis using Cons by (simp del: utf8_replace.simps)
  next
    case False
    then obtain c s where "utf8_replace (b # bs) = c # s" "\<not> (of_char c :: nat) < 128"
      using utf8_replace_head by blast
    then show ?thesis using Cons.prems by (simp del: utf8_replace.simps)
  qed
qed

lemma unquote_quote_plus:
  "unquote (plus_to_space (quote_plus k)) = k \<or> unquote (plus_to_space (quote_plus k)) = utf8_replace k"
proof (cases "CHR ''%'' \<in> set (plus_to_space (quote_plus k))")
  case True
  then show ?thesis by (simp add: unquote_def pct_decode_quote_plus)
next
  case False
  then have "pct_decode (plus_to_space (quote_plus k)) = plus_to_space (quote_plus k)"
    by (rule pct_decode_id)
  then show ?thesis using False by (simp add: unquote_def pct_decode_quote_plus)
qed

lemma bad_params_ascii: "b \<in> set bad_params \<Longrightarrow> \<forall>c \<in> set b. (of_char c :: nat) < 128"
  by (auto simp: bad_params_def)

lemma unquote_quote_plus_bad:
  assumes "unquote (plus_to_space (quote_plus k)) \<in> set bad_params"
  shows "k \<in> set bad_params"
  using unquote_quote_plus [of k]
proof
  assume "unquote (plus_to_space (quote_plus k)) = k"
  then show ?thesis using assms by simp
next
  assume u: "unquote (plus_to_space (quote_plus k)) = utf8_replace k"
  then have "\<forall>c \<in> set (utf8_replace k). (of_char c :: nat) < 128"
    using assms bad_params_ascii by metis
  then have "utf8_replace k = k" by (rule utf8_replace_ascii)
  then show ?thesis using assms u by simp
qed

lemma before_append: "c \<notin> set x \<Longrightarrow> before c (x @ c # r) = x"
  by (induction x) (auto simp: before_def)

lemma after_append: "c \<notin> set x \<Longrightarrow> after c (x @ c # r) = r"
  by (induction x) (auto simp: after_def)

lemma before_none: "c \<notin> set x \<Longrightarrow> before c x = x"
  by (induction x) (auto simp: before_def)

lemma split_all_not_Nil: "split_all c s \<noteq> []"
  by (induction s) (auto split: list.splits)

lemma split_all_no_sep: "c \<notin> set x \<Longrightarrow> split_all c x = [x]"
  by (induction x) (auto split: list.splits)

lemma split_all_sep: "split_all c (c # rest) = [] # split_all c rest"
  using split_all_not_Nil [of c rest] by (auto split: list.splits)

lemma split_all_append:
  "c \<notin> set x \<Longrightarrow> split_all c (x @ c # rest) = x # split_all c rest"
proof (induction x)
  case Nil
  then show ?case by (simp only: append_Nil split_all_sep)
next
  case (Cons a x)
  then show ?case by (auto split: list.splits)
qed

lemma split_all_join:
  "items \<noteq> [] \<Longrightarrow> \<forall>i \<in> set items. c \<notin> set i \<Longrightarrow> split_all c (join [c] items) = items"
proof (induction "[c]" items rule: join.induct)
  case 1
  then show ?case by simp
next
  case (2 x)
  then show ?case by (simp add: split_all_no_sep)
next
  case (3 x y ys)
  then show ?case by (simp add: split_all_append)
qed

lemma quote_byte_chars:
  "x \<in> set (quote_byte c) \<Longrightarrow> always_safe x \<or> x = CHR ''+'' \<or> x = CHR ''%''"
proof -
  have d: "(of_char c :: nat) div 16 < 16"
    using of_char_less_256 [of c] by (simp add: less_mult_imp_div_less)
  have m: "(of_char c :: nat) mod 16 < 16" by simp
  assume "x \<in> set (quote_byte c)"
  then show ?thesis
    using hex_digit_safe [OF d] hex_digit_safe [OF m]
    by (auto simp: quote_byte_def split: if_splits)
qed

lemma quote_plus_chars:
  "x \<in> set (quote_plus s) \<Longrightarrow> always_safe x \<or> x = CHR ''+'' \<or> x = CHR ''%''"
  by (auto simp: quote_plus_def dest: quote_byte_chars)

lemma quote_plus_no_delim:
  "CHR ''='' \<notin> set (quote_plus s)" "CHR ''&'' \<notin> set (quote_plus s)"
  "CHR ''#'' \<notin> set (quote_plus s)" "\<forall>x \<in> set (quote_plus s). \<not> unsafe_byte x"
  using quote_plus_chars [of _ s] always_safe_not
  by (fastforce simp: unsafe_byte_def)+

lemma urlencode_fields: "urlencode d = join ''&'' (map encode_field (dict_pairs d))"
proof -
  have "concat (map (\<lambda>(k, vs). map (\<lambda>v. quote_plus k @ ''='' @ quote_plus v) vs) d)
          = map encode_field (dict_pairs d)"
    by (induction d) (auto simp: dict_pairs_def encode_field_def)
  then show ?thesis by (simp add: urlencode_def)
qed

lemma parse_field_encode:
  "parse_field (encode_field (k, v)) = Some (n, w) \<Longrightarrow> n = unquote (plus_to_space (quote_plus k))"
proof -
  have b: "before CHR ''='' (encode_field (k, v)) = quote_plus k"
    using quote_plus_no_delim(1) [of k] by (simp add: before_append encode_field_def)
  assume "parse_field (encode_field (k, v)) = Some (n, w)"
  then show ?thesis by (auto simp: parse_field_def b split: if_splits)
qed

lemma encode_field_no_amp: "CHR ''&'' \<notin> set (encode_field kv)"
  using quote_plus_no_delim(2) by (simp add: encode_field_def)

lemma parse_qsl_urlencode:
  assumes "(n, w) \<in> set (parse_qsl (urlencode d))"
  shows "\<exists>k \<in> fst ` set d. n = unquote (plus_to_space (quote_plus k))"
proof (cases "dict_pairs d = []")
  case True
  then have "urlencode d = []" by (simp add: urlencode_fields)
  then show ?thesis using assms by (simp add: parse_qsl_def map_filter_def parse_field_def)
next
  case False
  have "split_all CHR ''&'' (urlencode d) = map encode_field (dict_pairs d)"
    unfolding urlencode_fields
    using split_all_join [of "map encode_field (dict_pairs d)" "CHR ''&''"] False
      encode_field_no_amp by auto
  then obtain kv where kv: "kv \<in> set (dict_pairs d)" "parse_field (encode_field kv) = Some (n, w)"
    using assms by (auto simp: parse_qsl_def map_filter_def)
  then have k: "fst kv \<in> fst ` set d" by (force simp: dict_pairs_def)
  have "n = unquote (plus_to_space (quote_plus (fst kv)))"
    using parse_field_encode [of "fst kv" "snd kv" n w] kv(2) by simp
  then show ?thesis using k by blast
qed

lemma dict_add_keys: "fst ` set (dict_add d kv) = insert (fst kv) (fst ` set d)"
  by (induction d kv rule: dict_add.induct) auto

lemma foldl_dict_add_keys:
  "fst ` set (foldl dict_add d kvs) = fst ` set d \<union> fst ` set kvs"
  by (induction kvs arbitrary: d) (auto simp: dict_add_keys)

lemma parse_qs_keys: "fst ` set (parse_qs qs) = fst ` set (parse_qsl qs)"
  by (simp add: parse_qs_def foldl_dict_add_keys)

lemma foldl_dict_pop_keys: "fst ` set (foldl dict_pop d ks) = fst ` set d - set ks"
  by (induction ks arbitrary: d) (auto simp: dict_pop_def)

lemma clean_query_no_bad:
  assumes "b \<in> set bad_params"
  shows "b \<notin> fst ` set (parse_qs (clean_query qs))"
proof
  assume "b \<in> fst ` set (parse_qs (clean_query qs))"
  then obtain w where "(b, w) \<in> set (parse_qsl (clean_query qs))"
    unfolding parse_qs_keys by auto
  then obtain k where k: "k \<in> fst ` set (foldl dict_pop (parse_qs qs) bad_params)"
      and b: "b = unquote (plus_to_space (quote_plus k))"
    unfolding clean_query_def using parse_qsl_urlencode by blast
  from b assms have "k \<in> set bad_params" using unquote_quote_plus_bad by simp
  then show False using k unfolding foldl_dict_pop_keys by simp
qed

lemma join_chars: "x \<in> set (join sep xs) \<Longrightarrow> x \<in> set sep \<or> (\<exists>i \<in> set xs. x \<in> set i)"
  by (induction sep xs rule: join.induct) auto

lemma urlencode_chars:
  assumes "x \<in> set (urlencode d)"
  shows "always_safe x \<or> x = CHR ''+'' \<or> x = CHR ''%'' \<or> x = CHR ''='' \<or> x = CHR ''&''"
proof -
  from assms join_chars [of x "''&''" "map encode_field (dict_pairs d)"]
  consider "x = CHR ''&''" | kv where "x \<in> set (encode_field kv)"
    unfolding urlencode_fields by auto
  then show ?thesis
  proof cases
    case 1
    then show ?thesis by simp
  next
    case 2
    then show ?thesis using quote_plus_chars by (auto simp: encode_field_def)
  qed
qed

lemma clean_query_chars:
  "CHR ''#'' \<notin> set (clean_query qs)" "\<forall>x \<in> set (clean_query qs). \<not> unsafe_byte x"
  using urlencode_chars [of _ "foldl dict_pop (parse_qs qs) bad_params"] always_safe_not
  unfolding clean_query_def by (fastforce simp: unsafe_byte_def)+

lemma urlunsplit_head_tail: "urlunsplit sch nl url q f = url_head sch nl url @ url_tail q f"
  by (simp add: urlunsplit_def url_head_def url_tail_def Let_def)

lemma url_tail_start: "tail_start (url_tail q f)"
  by (simp add: tail_start_def url_tail_def)

lemma after_subset: "set (after c s) \<subseteq> set s"
  by (auto simp: after_def dest: in_set_dropD set_dropWhileD)

lemma before_subset: "set (before c s) \<subseteq> set s"
  by (auto simp: before_def dest: set_takeWhileD)

lemma before_not_mem: "c \<notin> set (before c s)"
  by (auto simp: before_def dest: set_takeWhileD)

lemma split_scheme_tail:
  assumes "tail_start t" and "split_scheme (h @ t) = (s, r)"
  shows "\<exists>h2. r = h2 @ t \<and> set h2 \<subseteq> set h"
proof (cases "s = [] \<and> r = h @ t")
  case True
  then show ?thesis by blast
next
  case False
  with assms(2) have c: "CHR '':'' \<in> set (h @ t)"
    and sc: "list_all scheme_chars (before CHR '':'' (h @ t))"
    and r: "r = after CHR '':'' (h @ t)"
    by (auto simp: split_scheme_def Let_def split: if_splits)
  show ?thesis
  proof (cases "CHR '':'' \<in> set h")
    case True
    then obtain a b where h: "h = a @ CHR '':'' # b" "CHR '':'' \<notin> set a"
      by (meson split_list_first)
    have "r = b @ t" using r h after_append [of "CHR '':''" a "b @ t"] by simp
    then show ?thesis using h by auto
  next
    case False
    with c have tne: "t \<noteq> []" by auto
    have "before CHR '':'' (h @ t) = h @ before CHR '':'' t"
      using False by (induction h) (auto simp: before_def)
    moreover have "hd t \<in> set (before CHR '':'' t)"
      using tne assms(1) by (cases t) (auto simp: before_def tail_start_def)
    ultimately have "hd t \<in> set (before CHR '':'' (h @ t))" by simp
    then have "scheme_chars (hd t)" using sc by (auto simp: list_all_iff)
    then have False
      using assms(1) tne
      by (auto simp: tail_start_def scheme_chars_def is_alpha_def is_upper_def is_lower_def
            is_digit_def)
    then show ?thesis ..
  qed
qed

lemma take2_eq: "take 2 s = [a, b] \<longleftrightarrow> (\<exists>r. s = a # b # r)"
proof (cases s)
  case Nil
  then show ?thesis by simp
next
  case (Cons x s')
  then show ?thesis by (cases s') auto
qed

lemma drop2_Cons: "drop 2 (a # b # r) = r"
  by simp

lemma dropWhile_tail_start:
  "tail_start t \<Longrightarrow> dropWhile (\<lambda>c. \<not> netloc_delim c) t = t"
  by (cases t) (auto simp: tail_start_def netloc_delim_def)

lemma splitnetloc_tail:
  assumes "tail_start t" and "take 2 (h @ t) = ''//''" and "splitnetloc (h @ t) = (n, r)"
  shows "\<exists>h3. r = h3 @ t \<and> set h3 \<subseteq> set h"
proof -
  from assms(2) obtain w where w: "h @ t = CHR ''/'' # CHR ''/'' # w"
    unfolding take2_eq by blast
  have "\<exists>h'. h = CHR ''/'' # CHR ''/'' # h'"
  proof (cases h)
    case Nil
    then have "hd t = CHR ''/''" "t \<noteq> []" using w by auto
    then show ?thesis using assms(1) by (simp add: tail_start_def)
  next
    case (Cons x h1)
    show ?thesis
    proof (cases h1)
      case Nil
      then have "hd t = CHR ''/''" "t \<noteq> []" using w Cons by auto
      then show ?thesis using assms(1) by (simp add: tail_start_def)
    next
      case (Cons y h2)
      then show ?thesis using w \<open>h = x # h1\<close> by simp
    qed
  qed
  then obtain h' where h': "h = CHR ''/'' # CHR ''/'' # h'" by blast
  have d: "drop 2 (h @ t) = h' @ t"
    unfolding h' append_Cons by (rule drop2_Cons)
  have r: "r = dropWhile (\<lambda>c. \<not> netloc_delim c) (h' @ t)"
    using assms(3) unfolding splitnetloc_def d by simp
  show ?thesis
  proof (cases "\<exists>x \<in> set h'. netloc_delim x")
    case True
    then obtain x where x: "x \<in> set h'" "\<not> \<not> netloc_delim x" by blast
    have e: "r = dropWhile (\<lambda>c. \<not> netloc_delim c) h' @ t"
      unfolding r using x by (rule dropWhile_append1)
    have "set (dropWhile (\<lambda>c. \<not> netloc_delim c) h') \<subseteq> set h'"
      by (meson set_dropWhileD subsetI)
    moreover have "set h' \<subseteq> set h" unfolding h' by (rule subsetI) simp
    ultimately have "set (dropWhile (\<lambda>c. \<not> netloc_delim c) h') \<subseteq> set h"
      by (rule subset_trans)
    with e show ?thesis by (intro exI conjI)
  next
    case False
    then have "\<And>x. x \<in> set h' \<Longrightarrow> \<not> netloc_delim x" by blast
    then have "r = dropWhile (\<lambda>c. \<not> netloc_delim c) t"
      unfolding r by (rule dropWhile_append2)
    then have "r = [] @ t" using dropWhile_tail_start [OF assms(1)] by simp
    moreover have "set [] \<subseteq> set h" by simp
    ultimately show ?thesis by (intro exI conjI)
  qed
qed

lemma url_tail_set: "set (url_tail q f) \<subseteq> {CHR ''?'', CHR ''#''} \<union> set q \<union> set f"
  by (auto simp: url_tail_def)

lemma not_unsafe_delims: "\<not> unsafe_byte CHR ''?''" "\<not> unsafe_byte CHR ''#''"
  by (simp_all add: unsafe_byte_def)

lemma rebuilt_no_unsafe:
  assumes h: "\<forall>c \<in> set h. head_char c"
    and q: "\<forall>c \<in> set q. \<not> unsafe_byte c"
    and f: "\<forall>c \<in> set f. \<not> unsafe_byte c"
  shows "filter (\<lambda>c. \<not> unsafe_byte c) (h @ url_tail q f) = h @ url_tail q f"
proof -
  have "\<not> unsafe_byte c" if "c \<in> set (h @ url_tail q f)" for c
  proof (cases "c \<in> set h")
    case True
    then have "head_char c" using h by simp
    then show ?thesis by (simp add: head_char_def)
  next
    case False
    then have "c \<in> set (url_tail q f)" using that by simp
    then have "c = CHR ''?'' \<or> c = CHR ''#'' \<or> c \<in> set q \<or> c \<in> set f"
      using url_tail_set [of q f] by auto
    then show ?thesis using q f not_unsafe_delims by metis
  qed
  then show ?thesis by (simp only: filter_id_conv) simp
qed


lemma split_fragment:
  assumes "CHR ''#'' \<notin> set x"
  shows "(if CHR ''#'' \<in> set (x @ (if f \<noteq> [] then ''#'' @ f else []))
          then (before CHR ''#'' (x @ (if f \<noteq> [] then ''#'' @ f else [])),
                after CHR ''#'' (x @ (if f \<noteq> [] then ''#'' @ f else [])))
          else (x @ (if f \<noteq> [] then ''#'' @ f else []), [])) = (x, f)"
proof (cases "f = []")
  case True
  then show ?thesis using assms by simp
next
  case False
  then show ?thesis
    using before_append [OF assms, of f] after_append [OF assms, of f] by simp
qed

lemma split_query:
  assumes "CHR ''?'' \<notin> set x"
  shows "(if CHR ''?'' \<in> set (x @ (if q \<noteq> [] then ''?'' @ q else []))
          then (before CHR ''?'' (x @ (if q \<noteq> [] then ''?'' @ q else [])),
                after CHR ''?'' (x @ (if q \<noteq> [] then ''?'' @ q else [])))
          else (x @ (if q \<noteq> [] then ''?'' @ q else []), [])) = (x, q)"
proof (cases "q = []")
  case True
  then show ?thesis using assms by simp
next
  case False
  then show ?thesis
    using before_append [OF assms, of q] after_append [OF assms, of q] by simp
qed

lemma lstrip_tail:
  assumes "tail_start t"
  shows "dropWhile c0_or_space (h @ t) = dropWhile c0_or_space h @ t"
proof (cases "\<exists>x \<in> set h. \<not> c0_or_space x")
  case True
  then obtain x where "x \<in> set h" "\<not> c0_or_space x" by blast
  then show ?thesis by (rule dropWhile_append1)
next
  case False
  then have a: "\<And>x. x \<in> set h \<Longrightarrow> c0_or_space x" by blast
  have "dropWhile c0_or_space t = t"
    using assms by (cases t) (auto simp: tail_start_def c0_or_space_def)
  moreover have "dropWhile c0_or_space h = []" using a by simp
  ultimately show ?thesis using a by (simp add: dropWhile_append2)
qed

lemma urlsplit_rebuilt:
  assumes h0: "\<forall>c \<in> set h0. head_char c"
    and q: "CHR ''#'' \<notin> set q" "\<forall>c \<in> set q. \<not> unsafe_byte c"
    and f: "\<forall>c \<in> set f. \<not> unsafe_byte c"
    and u: "urlsplit (h0 @ url_tail q f) = Inr (s, n, u, q2, f2)"
  shows "q2 = q \<and> f2 = f"
proof -
  let ?t = "url_tail q f"
  let ?qq = "if q \<noteq> [] then ''?'' @ q else []"
  let ?ff = "if f \<noteq> [] then ''#'' @ f else []"
  define h where "h = dropWhile c0_or_space h0"
  have ls: "dropWhile c0_or_space (h0 @ ?t) = h @ ?t"
    unfolding h_def using url_tail_start by (rule lstrip_tail)
  have "set h \<subseteq> set h0" unfolding h_def by (meson set_dropWhileD subsetI)
  then have h: "\<forall>c \<in> set h. head_char c" using h0 by (meson subsetD)
  have fl: "filter (\<lambda>c. \<not> unsafe_byte c) (h @ ?t) = h @ ?t"
    using h q(2) f by (rule rebuilt_no_unsafe)
  obtain sch url2 where ss: "split_scheme (h @ ?t) = (sch, url2)"
    by (cases "split_scheme (h @ ?t)")
  have "\<exists>h2. url2 = h2 @ ?t \<and> set h2 \<subseteq> set h"
    using url_tail_start ss by (rule split_scheme_tail)
  then obtain h2 where h2: "url2 = h2 @ ?t" "set h2 \<subseteq> set h"
    by (elim exE conjE)
  obtain nl url3 where nn: "(if take 2 url2 = ''//'' then splitnetloc url2 else ([], url2)) = (nl, url3)"
    by (cases "if take 2 url2 = ''//'' then splitnetloc url2 else ([], url2)")
  have "\<exists>h3. url3 = h3 @ ?t \<and> set h3 \<subseteq> set h2"
  proof (cases "take 2 url2 = ''//''")
    case True
    then have "splitnetloc (h2 @ ?t) = (nl, url3)" "take 2 (h2 @ ?t) = ''//''"
      using nn h2(1) by simp_all
    then show ?thesis
      using splitnetloc_tail [OF url_tail_start, of h2 q f nl url3] by simp
  next
    case False
    then have "url3 = h2 @ ?t" using nn h2(1) by simp
    moreover have "set h2 \<subseteq> set h2" by simp
    ultimately show ?thesis by (intro exI conjI)
  qed
  then obtain h3 where h3: "url3 = h3 @ ?t" "set h3 \<subseteq> set h2" by (elim exE conjE)
  have "\<forall>c \<in> set h3. head_char c" using h h2(2) h3(2) by (meson subsetD)
  then have h3c: "CHR ''?'' \<notin> set h3" "CHR ''#'' \<notin> set h3"
    unfolding head_char_def by metis+
  have e3: "url3 = (h3 @ ?qq) @ ?ff" by (simp add: h3(1) url_tail_def)
  have n: "CHR ''#'' \<notin> set (h3 @ ?qq)" using h3c(2) q(1) by simp
  have r1: "(if CHR ''#'' \<in> set url3 then (before CHR ''#'' url3, after CHR ''#'' url3)
             else (url3, [])) = (h3 @ ?qq, f)"
    unfolding e3 using n by (rule split_fragment)
  have r2: "(if CHR ''?'' \<in> set (h3 @ ?qq)
             then (before CHR ''?'' (h3 @ ?qq), after CHR ''?'' (h3 @ ?qq))
             else (h3 @ ?qq, [])) = (h3, q)"
    using h3c(1) by (rule split_query)
  have "urlsplit (h0 @ ?t) = (if bad_brackets nl then Inl ValueError
                             else if bad_host nl then Inl ValueError
                             else Inr (sch, nl, h3, q, f))"
    unfolding urlsplit_def ls fl Let_def ss prod.case nn r1 r2 by (rule refl)
  with u show ?thesis by (simp split: if_splits)
qed

lemma char_code_eq: "c = d \<longleftrightarrow> (of_char c :: nat) = of_char d"
  by simp

lemma head_char_code:
  "head_char c \<longleftrightarrow> (of_char c :: nat) \<notin> {63, 35, 9, 13, 10}"
  unfolding head_char_def unsafe_byte_def
  by (simp add: char_code_eq [of c])

lemma netloc_delim_code:
  "netloc_delim c \<longleftrightarrow> (of_char c :: nat) \<in> {47, 63, 35}"
  unfolding netloc_delim_def
  by (simp add: char_code_eq [of c])

lemma unsafe_byte_code: "unsafe_byte c \<longleftrightarrow> (of_char c :: nat) \<in> {9, 13, 10}"
  unfolding unsafe_byte_def by (simp add: char_code_eq [of c])

lemma of_char_ascii_lower:
  "(of_char (ascii_lower c) :: nat) = (if is_upper c then of_char c + 32 else of_char c)"
  by (simp add: ascii_lower_def is_upper_def)

lemma scheme_lower_head: "scheme_chars c \<Longrightarrow> head_char (ascii_lower c)"
  unfolding head_char_code of_char_ascii_lower scheme_chars_def is_alpha_def is_upper_def
    is_lower_def is_digit_def
  by (auto simp: char_code_eq [of c])

lemma head_chars_literal:
  "head_char CHR '':''" "head_char CHR ''/''" "head_char CHR '';''"
  by (simp_all add: head_char_code)

lemma split_scheme_parts:
  assumes "split_scheme x = (s, r)"
  shows "set r \<subseteq> set x \<and> (\<forall>c \<in> set s. head_char c)"
proof (cases "s = [] \<and> r = x")
  case True
  then show ?thesis by simp
next
  case False
  with assms have s: "s = map ascii_lower (before CHR '':'' x)"
    and sc: "list_all scheme_chars (before CHR '':'' x)"
    and r: "r = after CHR '':'' x"
    by (auto simp: split_scheme_def Let_def split: if_splits)
  have "\<forall>c \<in> set s. head_char c"
    unfolding s using sc scheme_lower_head by (auto simp: list_all_iff)
  then show ?thesis using r after_subset by simp
qed

lemma splitnetloc_parts:
  assumes "(if take 2 x = ''//'' then splitnetloc x else ([], x)) = (nl, r)"
  shows "set r \<subseteq> set x \<and> set nl \<subseteq> set x \<and> (\<forall>c \<in> set nl. \<not> netloc_delim c)"
proof (cases "take 2 x = ''//''")
  case True
  with assms have nl: "nl = takeWhile (\<lambda>c. \<not> netloc_delim c) (drop 2 x)"
    and r: "r = dropWhile (\<lambda>c. \<not> netloc_delim c) (drop 2 x)"
    by (simp_all add: splitnetloc_def)
  have "set r \<subseteq> set x" unfolding r by (meson set_dropWhileD in_set_dropD subsetI)
  moreover have "set nl \<subseteq> set x" unfolding nl by (meson set_takeWhileD in_set_dropD subsetI)
  moreover have "\<forall>c \<in> set nl. \<not> netloc_delim c"
    unfolding nl using set_takeWhileD [of _ "\<lambda>c. \<not> netloc_delim c" "drop 2 x"] by (intro ballI) simp
  ultimately show ?thesis by (intro conjI)
next
  case False
  with assms show ?thesis by simp
qed

lemma split_first_parts:
  assumes "(if c \<in> set x then (before c x, after c x) else (x, [])) = (a, b)"
  shows "c \<notin> set a \<and> set a \<subseteq> set x \<and> set b \<subseteq> set x"
proof (cases "c \<in> set x")
  case True
  with assms have "a = before c x" "b = after c x" by simp_all
  then show ?thesis using before_not_mem before_subset after_subset by simp
next
  case False
  with assms show ?thesis by simp
qed

lemma urlsplit_parts:
  assumes "urlsplit url0 = Inr (sch, nl, u, q, f)"
  shows "(\<forall>c \<in> set sch. head_char c) \<and> (\<forall>c \<in> set nl. head_char c)
         \<and> (\<forall>c \<in> set u. head_char c) \<and> (\<forall>c \<in> set f. \<not> unsafe_byte c)"
proof -
  define url1 where "url1 = filter (\<lambda>c. \<not> unsafe_byte c) (dropWhile c0_or_space url0)"
  have u1: "\<forall>c \<in> set url1. \<not> unsafe_byte c" by (simp add: url1_def)
  obtain s url2 where ss: "split_scheme url1 = (s, url2)"
    by (cases "split_scheme url1")
  obtain n url3 where nn: "(if take 2 url2 = ''//'' then splitnetloc url2 else ([], url2)) = (n, url3)"
    by (cases "if take 2 url2 = ''//'' then splitnetloc url2 else ([], url2)")
  obtain url4 fr where ff: "(if CHR ''#'' \<in> set url3 then (before CHR ''#'' url3, after CHR ''#'' url3)
                  else (url3, [])) = (url4, fr)"
    by (cases "if CHR ''#'' \<in> set url3 then (before CHR ''#'' url3, after CHR ''#'' url3)
                  else (url3, [])")
  obtain url5 qr where qq: "(if CHR ''?'' \<in> set url4 then (before CHR ''?'' url4, after CHR ''?'' url4)
                  else (url4, [])) = (url5, qr)"
    by (cases "if CHR ''?'' \<in> set url4 then (before CHR ''?'' url4, after CHR ''?'' url4)
                  else (url4, [])")
  have "urlsplit url0 = (if bad_brackets n then Inl ValueError
                         else if bad_host n then Inl ValueError
                         else Inr (s, n, url5, qr, fr))"
    unfolding urlsplit_def url1_def [symmetric] Let_def ss prod.case nn ff qq by (rule refl)
  with assms have eq: "sch = s" "nl = n" "u = url5" "f = fr"
    by (simp_all split: if_splits)
  note p1 = split_scheme_parts [OF ss]
  note p2 = splitnetloc_parts [OF nn]
  note p3 = split_first_parts [OF ff]
  note p4 = split_first_parts [OF qq]
  have s2: "set url2 \<subseteq> set url1" using p1 by simp
  have s3: "set url3 \<subseteq> set url1" using p2 s2 by (meson subset_trans)
  have s4: "set url4 \<subseteq> set url1" using p3 s3 by (meson subset_trans)
  have s5: "set url5 \<subseteq> set url4" using p4 by simp
  have a: "\<forall>c \<in> set sch. head_char c" using p1 eq(1) by simp
  have b: "\<forall>c \<in> set nl. head_char c"
  proof
    fix c assume c: "c \<in> set nl"
    then have "\<not> netloc_delim c" using p2 eq(2) by simp
    moreover have "\<not> unsafe_byte c" using c p2 eq(2) s2 u1 by (meson subsetD)
    ultimately show "head_char c" by (simp add: head_char_def netloc_delim_def)
  qed
  have c: "\<forall>c \<in> set u. head_char c"
  proof
    fix c assume c: "c \<in> set u"
    then have c5: "c \<in> set url5" using eq(3) by simp
    then have c4: "c \<in> set url4" using s5 by (meson subsetD)
    have "c \<noteq> CHR ''?''" using c5 p4 by metis
    moreover have "c \<noteq> CHR ''#''" using c4 p3 by metis
    moreover have "\<not> unsafe_byte c" using c4 s4 u1 by (meson subsetD)
    ultimately show "head_char c" by (simp add: head_char_def)
  qed
  have d: "\<forall>c \<in> set f. \<not> unsafe_byte c"
    using p3 s3 u1 eq(4) by (meson subsetD)
  from a b c d show ?thesis by (intro conjI)
qed

lemma last_segment_subset: "set (last_segment u) \<subseteq> set u"
proof -
  have "set (takeWhile (\<lambda>c. c \<noteq> CHR ''/'') (rev u)) \<subseteq> set (rev u)"
    by (meson set_takeWhileD subsetI)
  then show ?thesis by (simp add: last_segment_def)
qed

lemma splitparams_parts:
  assumes "(if P then splitparams u else (u, [])) = (a, b)"
  shows "set a \<subseteq> set u \<and> set b \<subseteq> set u"
proof (cases "P \<and> CHR '';'' \<in> set (last_segment u)")
  case True
  let ?seg = "last_segment u"
  from True assms have a: "a = take (length u - length ?seg) u @ before CHR '';'' ?seg"
    and b: "b = after CHR '';'' ?seg"
    by (simp_all add: splitparams_def Let_def)
  have "set (take (length u - length ?seg) u) \<subseteq> set u" by (rule set_take_subset)
  moreover have "set (before CHR '';'' ?seg) \<subseteq> set u"
    using before_subset last_segment_subset by (rule subset_trans)
  ultimately have "set a \<subseteq> set u" unfolding a by simp
  moreover have "set b \<subseteq> set u"
    unfolding b using after_subset last_segment_subset by (rule subset_trans)
  ultimately show ?thesis by (intro conjI)
next
  case False
  with assms have "a = u" "b = []"
    by (auto simp: splitparams_def Let_def split: if_splits)
  then show ?thesis by simp
qed

lemma urlparse_split:
  assumes "urlparse url = Inr p"
  shows "\<exists>u. urlsplit url = Inr (scheme p, netloc p, u, query p, fragment p)
             \<and> set (path p) \<subseteq> set u \<and> set (params p) \<subseteq> set u"
proof -
  from assms obtain sch nl u q f where s: "urlsplit url = Inr (sch, nl, u, q, f)"
    by (cases "urlsplit url") (auto simp: urlparse_def)
  obtain a b where ab: "(if sch \<in> set uses_params \<and> CHR '';'' \<in> set u then splitparams u
                           else (u, [])) = (a, b)"
    by (cases "if sch \<in> set uses_params \<and> CHR '';'' \<in> set u then splitparams u else (u, [])")
  have "urlparse url = Inr \<lparr>scheme = sch, netloc = nl, path = a, params = b, query = q,
                  fragment = f\<rparr>"
    unfolding urlparse_def s sum.case prod.case Let_def ab by (rule refl)
  with assms have p: "p = \<lparr>scheme = sch, netloc = nl, path = a, params = b, query = q,
                  fragment = f\<rparr>" by simp
  have "set a \<subseteq> set u \<and> set b \<subseteq> set u" using ab by (rule splitparams_parts)
  then show ?thesis using s p by simp
qed

lemma url_head_chars:
  assumes "\<forall>c \<in> set sch. head_char c" and "\<forall>c \<in> set nl. head_char c"
    and "\<forall>c \<in> set x. head_char c"
  shows "\<forall>c \<in> set (url_head sch nl x). head_char c"
proof -
  have "set (url_head sch nl x) \<subseteq> set sch \<union> set nl \<union> set x \<union> {CHR '':'', CHR ''/''}"
    unfolding url_head_def Let_def by (simp split: if_splits) blast
  then have m: "c \<in> set sch \<or> c \<in> set nl \<or> c \<in> set x \<or> c = CHR '':'' \<or> c = CHR ''/''"
    if "c \<in> set (url_head sch nl x)" for c
    using that by blast
  show ?thesis
  proof
    fix c assume "c \<in> set (url_head sch nl x)"
    from m [OF this] show "head_char c"
      using assms head_chars_literal(1,2) by (elim disjE) simp_all
  qed
qed

lemma clean_url_query:
  assumes "urlparse url = Inr p"
    and "urlparse (urlunparse (p\<lparr>query := clean_query (query p)\<rparr>)) = Inr p'"
  shows "query p' = clean_query (query p) \<and> fragment p' = fragment p"
proof -
  from urlparse_split [OF assms(1)] obtain u where
    s: "urlsplit url = Inr (scheme p, netloc p, u, query p, fragment p)"
    and pu: "set (path p) \<subseteq> set u" "set (params p) \<subseteq> set u"
    by (elim exE conjE)
  note parts = urlsplit_parts [OF s]
  let ?x = "if params p \<noteq> [] then path p @ '';'' @ params p else path p"
  have x: "\<forall>c \<in> set ?x. head_char c"
  proof
    fix c assume "c \<in> set ?x"
    then have "c \<in> set u \<or> c = CHR '';''" using pu by (auto split: if_splits)
    then show "head_char c" using parts head_chars_literal(3) by (elim disjE) simp_all
  qed
  have h: "\<forall>c \<in> set (url_head (scheme p) (netloc p) ?x). head_char c"
    using parts x by (intro url_head_chars) simp_all
  have e: "urlunparse (p\<lparr>query := clean_query (query p)\<rparr>)
             = url_head (scheme p) (netloc p) ?x @ url_tail (clean_query (query p)) (fragment p)"
    by (simp add: urlunparse_def urlunsplit_head_tail)
  from urlparse_split [OF assms(2)] obtain u' where
    s': "urlsplit (urlunparse (p\<lparr>query := clean_query (query p)\<rparr>))
           = Inr (scheme p', netloc p', u', query p', fragment p')"
    by (elim exE conjE)
  have f: "\<forall>c \<in> set (fragment p). \<not> unsafe_byte c" using parts by simp
  show ?thesis
    using h clean_query_chars(1) clean_query_chars(2) f s' [unfolded e]
    by (rule urlsplit_rebuilt)
qed

theorem tracking_list_counterexample:
  "clean_url content_url = Inr ''https://example.com/p?utm_content=x''
   \<and> parse_qs ''utm_content=x'' = [(''utm_content'', [''x''])]
   \<and> starts_with ''utm_'' ''utm_content''"
  by code_simp

text \<open>
  Claim C8, amended. \<open>clean_url\<close> removes from the query string every parameter named
  \<^verbatim>\<open>tag\<close>, \<^verbatim>\<open>affid\<close>, \<^verbatim>\<open>ref\<close>, \<^verbatim>\<open>utm_source\<close>, \<^verbatim>\<open>utm_medium\<close> or \<^verbatim>\<open>utm_campaign\<close>: when the
  cleaned URL is parsed again, none of these names is a key of its query string.
\<close>

theorem clean_url_strips_bad_params:
  assumes "clean_url url = Inr c" and "urlparse c = Inr p'" and "b \<in> set bad_params"
  shows "b \<notin> fst ` set (parse_qs (query p'))"
proof -
  from assms(1) obtain p where p: "urlparse url = Inr p"
    and c: "c = urlunparse (p\<lparr>query := clean_query (query p)\<rparr>)"
    by (cases "urlparse url") (auto simp: clean_url_def)
  have "query p' = clean_query (query p)"
    using clean_url_query [OF p assms(2) [unfolded c]] by simp
  then show ?thesis using clean_query_no_bad [OF assms(3)] by simp
qed

theorem clean_url_strips_bad_params_witness:
  "clean_url mixed_url = Inr ''https://example.com/p?utm_content=y&id=7''
   \<and> urlparse ''https://example.com/p?utm_content=y&id=7''
       = Inr \<lparr>scheme = ''https'', netloc = ''example.com'', path = ''/p'', params = [],
               query = ''utm_content=y&id=7'', fragment = []\<rparr>
   \<and> parse_qs ''utm_content=y&id=7'' = [(''utm_content'', [''y'']), (''id'', [''7''])]
   \<and> ''utm_source'' \<in> set bad_params
   \<and> ''utm_source'' \<notin> fst ` set (parse_qs ''utm_content=y&id=7'')"
proof -
  have c: "clean_url mixed_url = Inr ''https://example.com/p?utm_content=y&id=7''"
    by code_simp
  have u: "urlparse ''https://example.com/p?utm_content=y&id=7''
       = Inr \<lparr>scheme = ''https'', netloc = ''example.com'', path = ''/p'', params = [],
               query = ''utm_content=y&id=7'', fragment = []\<rparr>"
    by code_simp
  have q: "parse_qs ''utm_content=y&id=7'' = [(''utm_content'', [''y'']), (''id'', [''7''])]"
    by code_simp
  have b: "''utm_source'' \<in> set bad_params" by (simp add: bad_params_def)
  from clean_url_strips_bad_params [OF c u b] c u q b
  show ?thesis by simp
qed

section \<open>Rewriting a rewritten URL\<close>

subsection \<open>Decoding replaces malformed UTF-8 once and for all\<close>

lemma utf8_ascii_Cons:
  "(of_char b :: nat) < 128 \<Longrightarrow> utf8_replace (b # s) = b # utf8_replace s"
  by (subst utf8_replace.simps(2)) simp

lemma utf8_two_Cons:
  "194 \<le> (of_char b :: nat) \<Longrightarrow> (of_char b :: nat) \<le> 223 \<Longrightarrow> cont_byte c
     \<Longrightarrow> utf8_replace (b # c # s) = b # c # utf8_replace s"
  by (subst utf8_replace.simps(2)) simp

lemma utf8_three_Cons:
  "224 \<le> (of_char b :: nat) \<Longrightarrow> (of_char b :: nat) \<le> 239 \<Longrightarrow> second_ok b c \<Longrightarrow> cont_byte d
     \<Longrightarrow> utf8_replace (b # c # d # s) = b # c # d # utf8_replace s"
  by (subst utf8_replace.simps(2)) simp

lemma utf8_four_Cons:
  "240 \<le> (of_char b :: nat) \<Longrightarrow> (of_char b :: nat) \<le> 244 \<Longrightarrow> second_ok b c \<Longrightarrow> cont_byte d
     \<Longrightarrow> cont_byte e
     \<Longrightarrow> utf8_replace (b # c # d # e # s) = b # c # d # e # utf8_replace s"
  by (subst utf8_replace.simps(2)) simp

lemma utf8_FFFD: "utf8_replace (FFFD @ s) = FFFD @ utf8_replace s"
proof -
  have "utf8_replace (CHR 0xEF # CHR 0xBF # CHR 0xBD # s)
          = CHR 0xEF # CHR 0xBF # CHR 0xBD # utf8_replace s"
    by (rule utf8_three_Cons) (simp_all add: second_ok_def cont_byte_def)
  then show ?thesis by (simp add: FFFD_def)
qed

lemma utf8_FFFD_only: "utf8_replace FFFD = FFFD"
  using utf8_FFFD [of "[]"] by (simp add: utf8_replace.simps(1))

lemma utf8_replace_idem: "utf8_replace (utf8_replace s) = utf8_replace s"
proof (induction s rule: utf8_replace.induct)
  case 1
  show ?case by (simp add: utf8_replace.simps(1))
next
  case (2 b bs)
  consider (ascii) "(of_char b :: nat) < 128"
    | (two) "\<not> (of_char b :: nat) < 128" "194 \<le> (of_char b :: nat) \<and> (of_char b :: nat) \<le> 223"
    | (three) "\<not> (of_char b :: nat) < 128" "\<not> (194 \<le> (of_char b :: nat) \<and> (of_char b :: nat) \<le> 223)"
              "224 \<le> (of_char b :: nat) \<and> (of_char b :: nat) \<le> 239"
    | (four) "\<not> (of_char b :: nat) < 128" "\<not> (194 \<le> (of_char b :: nat) \<and> (of_char b :: nat) \<le> 223)"
              "\<not> (224 \<le> (of_char b :: nat) \<and> (of_char b :: nat) \<le> 239)"
              "240 \<le> (of_char b :: nat) \<and> (of_char b :: nat) \<le> 244"
    | (bad) "\<not> (of_char b :: nat) < 128" "\<not> (194 \<le> (of_char b :: nat) \<and> (of_char b :: nat) \<le> 223)"
              "\<not> (224 \<le> (of_char b :: nat) \<and> (of_char b :: nat) \<le> 239)"
              "\<not> (240 \<le> (of_char b :: nat) \<and> (of_char b :: nat) \<le> 244)"
    by blast
  then show ?case
  proof cases
    case ascii
    then show ?thesis using "2.IH"(1) by (simp add: utf8_ascii_Cons)
  next
    case two
    show ?thesis
    proof (cases bs)
      case Nil
      then have "utf8_replace (b # bs) = FFFD"
        using two by (subst utf8_replace.simps(2)) simp
      then show ?thesis by (simp add: utf8_FFFD_only)
    next
      case (Cons c cs)
      show ?thesis
      proof (cases "cont_byte c")
        case True
        then have e: "utf8_replace (b # bs) = b # c # utf8_replace cs"
          using two Cons by (simp add: utf8_two_Cons)
        have "utf8_replace (utf8_replace cs) = utf8_replace cs"
          using "2.IH"(2) two Cons True by simp
        then show ?thesis unfolding e using two True by (simp add: utf8_two_Cons)
      next
        case False
        then have e: "utf8_replace (b # bs) = FFFD @ utf8_replace bs"
          using two Cons by (subst utf8_replace.simps(2)) simp
        have "utf8_replace (utf8_replace bs) = utf8_replace bs"
          using "2.IH"(3) two Cons False by simp
        then show ?thesis unfolding e by (simp add: utf8_FFFD)
      qed
    qed
  next
    case three
    show ?thesis
    proof (cases bs)
      case Nil
      then have "utf8_replace (b # bs) = FFFD"
        using three by (subst utf8_replace.simps(2)) simp
      then show ?thesis by (simp add: utf8_FFFD_only)
    next
      case c: (Cons c cs)
      show ?thesis
      proof (cases "second_ok b c")
        case False
        then have e: "utf8_replace (b # bs) = FFFD @ utf8_replace bs"
          using three c by (subst utf8_replace.simps(2)) simp
        have "utf8_replace (utf8_replace bs) = utf8_replace bs"
          using "2.IH"(6) three c False by simp
        then show ?thesis unfolding e by (simp add: utf8_FFFD)
      next
        case ok: True
        show ?thesis
        proof (cases cs)
          case Nil
          then have "utf8_replace (b # bs) = FFFD"
            using three c ok by (subst utf8_replace.simps(2)) simp
          then show ?thesis by (simp add: utf8_FFFD_only)
        next
          case d: (Cons d ds)
          show ?thesis
          proof (cases "cont_byte d")
            case True
            then have e: "utf8_replace (b # bs) = b # c # d # utf8_replace ds"
              using three c ok d by (simp add: utf8_three_Cons)
            have "utf8_replace (utf8_replace ds) = utf8_replace ds"
              using "2.IH"(4) three c ok d True by simp
            then show ?thesis unfolding e using three ok True by (simp add: utf8_three_Cons)
          next
            case False
            then have e: "utf8_replace (b # bs) = FFFD @ utf8_replace cs"
              using three c ok d by (subst utf8_replace.simps(2)) simp
            have "utf8_replace (utf8_replace cs) = utf8_replace cs"
              using "2.IH"(5) three c ok d False by simp
            then show ?thesis unfolding e by (simp add: utf8_FFFD)
          qed
        qed
      qed
    qed
  next
    case four
    show ?thesis
    proof (cases bs)
      case Nil
      then have "utf8_replace (b # bs) = FFFD"
        using four by (subst utf8_replace.simps(2)) simp
      then show ?thesis by (simp add: utf8_FFFD_only)
    next
      case c: (Cons c cs)
      show ?thesis
      proof (cases "second_ok b c")
        case False
        then have e: "utf8_replace (b # bs) = FFFD @ utf8_replace bs"
          using four c by (subst utf8_replace.simps(2)) simp
        have "utf8_replace (utf8_replace bs) = utf8_replace bs"
          using "2.IH"(10) four c False by simp
        then show ?thesis unfolding e by (simp add: utf8_FFFD)
      next
        case ok: True
        show ?thesis
        proof (cases cs)
          case Nil
          then have "utf8_replace (b # bs) = FFFD"
            using four c ok by (subst utf8_replace.simps(2)) simp
          then show ?thesis by (simp add: utf8_FFFD_only)
        next
          case d: (Cons d ds)
          show ?thesis
          proof (cases "cont_byte d")
            case False
            then have e: "utf8_replace (b # bs) = FFFD @ utf8_replace cs"
              using four c ok d by (subst utf8_replace.simps(2)) simp
            have "utf8_replace (utf8_replace cs) = utf8_replace cs"
              using "2.IH"(9) four c ok d False by simp
            then show ?thesis unfolding e by (simp add: utf8_FFFD)
          next
            case dk: True
            show ?thesis
            proof (cases ds)
              case Nil
              then have "utf8_replace (b # bs) = FFFD"
                using four c ok d dk by (subst utf8_replace.simps(2)) simp
              then show ?thesis by (simp add: utf8_FFFD_only)
            next
              case e: (Cons e es)
              show ?thesis
              proof (cases "cont_byte e")
                case True
                then have q: "utf8_replace (b # bs) = b # c # d # e # utf8_replace es"
                  using four c ok d dk e by (simp add: utf8_four_Cons)
                have "utf8_replace (utf8_replace es) = utf8_replace es"
                  using "2.IH"(7) four c ok d dk e True by simp
                then show ?thesis
                  unfolding q using four ok dk True by (simp add: utf8_four_Cons)
              next
                case False
                then have q: "utf8_replace (b # bs) = FFFD @ utf8_replace ds"
                  using four c ok d dk e by (subst utf8_replace.simps(2)) simp
                have "utf8_replace (utf8_replace ds) = utf8_replace ds"
                  using "2.IH"(8) four c ok d dk e False by simp
                then show ?thesis unfolding q by (simp add: utf8_FFFD)
              qed
            qed
          qed
        qed
      qed
    qed
  next
    case bad
    have e: "utf8_replace (b # bs) = FFFD @ utf8_replace bs"
      by (subst utf8_replace.simps(2)) (simp only: bad if_False)
    have "utf8_replace (utf8_replace bs) = utf8_replace bs"
      using "2.IH"(11) bad by simp
    then show ?thesis unfolding e by (simp add: utf8_FFFD)
  qed
qed

subsection \<open>Query strings that survive cleaning\<close>

declare utf8_ok.simps [simp del]

lemma requotes_utf8_replace: "requotes (utf8_replace x)"
  using unquote_quote_plus [of "utf8_replace x"]
  by (auto simp: requotes_def utf8_replace_idem)

lemma split_around: "c \<in> set s \<Longrightarrow> s = before c s @ [c] @ after c s"
proof (induction s)
  case Nil
  then show ?case by simp
next
  case (Cons a s)
  show ?case
  proof (cases "a = c")
    case True
    then show ?thesis by (simp add: before_def after_def)
  next
    case False
    then have "c \<in> set s" using Cons.prems by simp
    then have "s = before c s @ [c] @ after c s" by (rule Cons.IH)
    then show ?thesis using False by (simp add: before_def after_def)
  qed
qed

lemma utf8_ok_Nil [simp]: "utf8_ok []"
  by (simp add: utf8_ok.simps(1))

lemma utf8_ok_ascii_Cons: "(of_char b :: nat) < 128 \<Longrightarrow> utf8_ok (b # s) = utf8_ok s"
  by (subst utf8_ok.simps(2)) simp

lemma utf8_ok_two_Cons:
  "194 \<le> (of_char b :: nat) \<Longrightarrow> (of_char b :: nat) \<le> 223
     \<Longrightarrow> utf8_ok (b # c # s) = (cont_byte c \<and> utf8_ok s)"
  by (subst utf8_ok.simps(2)) simp

lemma utf8_ok_three_Cons:
  "224 \<le> (of_char b :: nat) \<Longrightarrow> (of_char b :: nat) \<le> 239
     \<Longrightarrow> utf8_ok (b # c # d # s) = (second_ok b c \<and> cont_byte d \<and> utf8_ok s)"
  by (subst utf8_ok.simps(2)) simp

lemma utf8_ok_four_Cons:
  "240 \<le> (of_char b :: nat) \<Longrightarrow> (of_char b :: nat) \<le> 244
     \<Longrightarrow> utf8_ok (b # c # d # e # s)
           = (second_ok b c \<and> cont_byte d \<and> cont_byte e \<and> utf8_ok s)"
  by (subst utf8_ok.simps(2)) simp

lemma utf8_ok_cases:
  assumes "utf8_ok (b # bs)"
  obtains (one) "(of_char b :: nat) < 128" "utf8_ok bs"
  | (two) c s where "194 \<le> (of_char b :: nat)" "(of_char b :: nat) \<le> 223" "bs = c # s"
      "cont_byte c" "utf8_ok s"
  | (three) c d s where "224 \<le> (of_char b :: nat)" "(of_char b :: nat) \<le> 239"
      "bs = c # d # s" "second_ok b c" "cont_byte d" "utf8_ok s"
  | (four) c d e s where "240 \<le> (of_char b :: nat)" "(of_char b :: nat) \<le> 244"
      "bs = c # d # e # s" "second_ok b c" "cont_byte d" "cont_byte e" "utf8_ok s"
proof -
  consider (a) "(of_char b :: nat) < 128"
    | (b) "194 \<le> (of_char b :: nat)" "(of_char b :: nat) \<le> 223"
    | (c) "224 \<le> (of_char b :: nat)" "(of_char b :: nat) \<le> 239"
    | (d) "240 \<le> (of_char b :: nat)" "(of_char b :: nat) \<le> 244"
    | (e) "128 \<le> (of_char b :: nat)" "(of_char b :: nat) < 194 \<or> 244 < (of_char b :: nat)"
    by linarith
  then show thesis
  proof cases
    case a
    then show ?thesis using assms one by (simp add: utf8_ok_ascii_Cons)
  next
    case b
    show ?thesis
    proof (cases bs)
      case Nil
      then have False using assms b by (subst (asm) utf8_ok.simps(2)) simp
      then show ?thesis ..
    next
      case (Cons c s)
      then show ?thesis using assms b two by (simp add: utf8_ok_two_Cons)
    qed
  next
    case c
    show ?thesis
    proof (cases bs)
      case Nil
      then have False using assms c by (subst (asm) utf8_ok.simps(2)) simp
      then show ?thesis ..
    next
      case (Cons c1 s1)
      show ?thesis
      proof (cases s1)
        case Nil
        then have False using assms c Cons by (subst (asm) utf8_ok.simps(2)) simp
        then show ?thesis ..
      next
        case (Cons d s)
        then show ?thesis
          using assms c three \<open>bs = c1 # s1\<close> by (simp add: utf8_ok_three_Cons)
      qed
    qed
  next
    case d
    show ?thesis
    proof (cases bs)
      case Nil
      then have False using assms d by (subst (asm) utf8_ok.simps(2)) simp
      then show ?thesis ..
    next
      case (Cons c1 s1)
      show ?thesis
      proof (cases s1)
        case Nil
        then have False using assms d Cons by (subst (asm) utf8_ok.simps(2)) simp
        then show ?thesis ..
      next
        case (Cons d1 s2)
        show ?thesis
        proof (cases s2)
          case Nil
          then have False
            using assms d Cons \<open>bs = c1 # s1\<close> by (subst (asm) utf8_ok.simps(2)) simp
          then show ?thesis ..
        next
          case (Cons e s)
          then show ?thesis
            using assms d four \<open>bs = c1 # s1\<close> \<open>s1 = d1 # s2\<close>
            by (simp add: utf8_ok_four_Cons)
        qed
      qed
    qed
  next
    case e
    then have False using assms by (subst (asm) utf8_ok.simps(2)) auto
    then show ?thesis ..
  qed
qed

lemma utf8_ok_induct [consumes 1, case_names Nil one two three four]:
  assumes ok: "utf8_ok s"
    and n: "P []"
    and o: "\<And>b s. (of_char b :: nat) < 128 \<Longrightarrow> utf8_ok s \<Longrightarrow> P s \<Longrightarrow> P (b # s)"
    and t: "\<And>b c s. 194 \<le> (of_char b :: nat) \<Longrightarrow> (of_char b :: nat) \<le> 223 \<Longrightarrow> cont_byte c
              \<Longrightarrow> utf8_ok s \<Longrightarrow> P s \<Longrightarrow> P (b # c # s)"
    and th: "\<And>b c d s. 224 \<le> (of_char b :: nat) \<Longrightarrow> (of_char b :: nat) \<le> 239
              \<Longrightarrow> second_ok b c \<Longrightarrow> cont_byte d \<Longrightarrow> utf8_ok s \<Longrightarrow> P s \<Longrightarrow> P (b # c # d # s)"
    and f: "\<And>b c d e s. 240 \<le> (of_char b :: nat) \<Longrightarrow> (of_char b :: nat) \<le> 244
              \<Longrightarrow> second_ok b c \<Longrightarrow> cont_byte d \<Longrightarrow> cont_byte e \<Longrightarrow> utf8_ok s \<Longrightarrow> P s
              \<Longrightarrow> P (b # c # d # e # s)"
  shows "P s"
  using ok
proof (induction s rule: length_induct)
  case (1 xs)
  show ?case
  proof (cases xs)
    case Nil
    then show ?thesis using n by simp
  next
    case (Cons b bs)
    from "1.prems" have "utf8_ok (b # bs)" unfolding Cons .
    then show ?thesis
    proof (cases rule: utf8_ok_cases)
      case one
      have "P bs" using "1.IH" one(2) Cons by simp
      then show ?thesis unfolding Cons using one by (intro o)
    next
      case (two c s)
      have "P s" using "1.IH" two(5) two(3) Cons by simp
      then show ?thesis unfolding Cons two(3) using two by (intro t)
    next
      case (three c d s)
      have "P s" using "1.IH" three(6) three(3) Cons by simp
      then show ?thesis unfolding Cons three(3) using three by (intro th)
    next
      case (four c d e s)
      have "P s" using "1.IH" four(7) four(3) Cons by simp
      then show ?thesis unfolding Cons four(3) using four by (intro f)
    qed
  qed
qed

lemma utf8_ok_replace: "utf8_ok s \<Longrightarrow> utf8_replace s = s"
proof (induction rule: utf8_ok_induct)
  case Nil
  show ?case by (simp add: utf8_replace.simps(1))
next
  case (one b s)
  then show ?case by (simp add: utf8_ascii_Cons)
next
  case (two b c s)
  then show ?case by (simp add: utf8_two_Cons)
next
  case (three b c d s)
  then show ?case by (simp add: utf8_three_Cons)
next
  case (four b c d e s)
  then show ?case by (simp add: utf8_four_Cons)
qed

lemma utf8_ok_map:
  assumes "utf8_ok s"
    and hi: "\<And>c. \<not> (of_char c :: nat) < 128 \<Longrightarrow> f c = c"
    and lo: "\<And>c. (of_char c :: nat) < 128 \<Longrightarrow> (of_char (f c) :: nat) < 128"
  shows "utf8_ok (map f s)"
  using assms(1)
proof (induction rule: utf8_ok_induct)
  case Nil
  show ?case by simp
next
  case (one b s)
  then show ?case using lo [of b] by (simp add: utf8_ok_ascii_Cons)
next
  case (two b c s)
  have "f b = b" "f c = c" using two(1,3) by (intro hi; simp add: cont_byte_def)+
  then show ?case using two by (simp add: utf8_ok_two_Cons)
next
  case (three b c d s)
  have "f b = b" "f c = c" "f d = d"
    using three(1,3,4) by (intro hi; simp add: cont_byte_def second_ok_def)+
  then show ?case using three by (simp add: utf8_ok_three_Cons)
next
  case (four b c d e s)
  have "f b = b" "f c = c" "f d = d" "f e = e"
    using four(1,3,4,5) by (intro hi; simp add: cont_byte_def second_ok_def)+
  then show ?case using four by (simp add: utf8_ok_four_Cons)
qed

lemma utf8_ok_plus_to_space: "utf8_ok s \<Longrightarrow> utf8_ok (plus_to_space s)"
  unfolding plus_to_space_def
proof (rule utf8_ok_map)
  fix c :: char
  show "\<not> (of_char c :: nat) < 128 \<Longrightarrow> (if c = CHR ''+'' then CHR '' '' else c) = c"
    by auto
  show "(of_char c :: nat) < 128
          \<Longrightarrow> (of_char (if c = CHR ''+'' then CHR '' '' else c) :: nat) < 128"
    by simp
qed

lemma utf8_ok_split:
  assumes "utf8_ok s" and a: "(of_char x :: nat) < 128"
  shows "utf8_ok (before x s) \<and> utf8_ok (after x s)"
  using assms(1)
proof (induction rule: utf8_ok_induct)
  case Nil
  show ?case by (simp add: before_def after_def)
next
  case (one b s)
  show ?case
  proof (cases "b = x")
    case True
    then show ?thesis using one(2) by (simp add: before_def after_def)
  next
    case False
    then show ?thesis using one by (simp add: before_def after_def utf8_ok_ascii_Cons)
  qed
next
  case (two b c s)
  have "b \<noteq> x" "c \<noteq> x" using two(1,3) a by (auto simp: cont_byte_def)
  then show ?case using two by (simp add: before_def after_def utf8_ok_two_Cons)
next
  case (three b c d s)
  have "b \<noteq> x" "c \<noteq> x" "d \<noteq> x"
    using three(1,3,4) a by (auto simp: cont_byte_def second_ok_def)
  then show ?case using three by (simp add: before_def after_def utf8_ok_three_Cons)
next
  case (four b c d e s)
  have "b \<noteq> x" "c \<noteq> x" "d \<noteq> x" "e \<noteq> x"
    using four(1,3,4,5) a by (auto simp: cont_byte_def second_ok_def)
  then show ?case using four by (simp add: before_def after_def utf8_ok_four_Cons)
qed

lemma split_all_before_after:
  "split_all c s = (if c \<in> set s then before c s # split_all c (after c s) else [s])"
proof (cases "c \<in> set s")
  case False
  then show ?thesis by (simp add: split_all_no_sep)
next
  case True
  then have s: "s = before c s @ c # after c s" using split_around [of c s] by simp
  have "split_all c (before c s @ c # after c s) = before c s # split_all c (after c s)"
    using before_not_mem by (rule split_all_append)
  then show ?thesis using True s by simp
qed

lemma utf8_ok_split_all:
  assumes "utf8_ok s" and "(of_char c :: nat) < 128" and "nv \<in> set (split_all c s)"
  shows "utf8_ok nv"
  using assms(1,3)
proof (induction s rule: length_induct)
  case (1 s)
  show ?case
  proof (cases "c \<in> set s")
    case False
    then have "nv = s" using "1.prems"(2) by (simp add: split_all_no_sep)
    then show ?thesis using "1.prems"(1) by simp
  next
    case True
    note ok = utf8_ok_split [OF "1.prems"(1) assms(2)]
    from "1.prems"(2) True have "nv = before c s \<or> nv \<in> set (split_all c (after c s))"
      by (subst (asm) split_all_before_after) simp
    then show ?thesis
    proof
      assume "nv = before c s"
      then show ?thesis using ok by simp
    next
      assume m: "nv \<in> set (split_all c (after c s))"
      have "length (after c s) < length s"
        using True split_around [of c s]
        by (metis add_Suc_right length_Cons length_append less_add_Suc2 append_Cons append_Nil)
      then show ?thesis using "1.IH" ok m by simp
    qed
  qed
qed

lemma requotes_ok: "utf8_ok s \<Longrightarrow> requotes s"
  using unquote_quote_plus [of s] by (auto simp: requotes_def utf8_ok_replace)

lemma requotes_unquote: "utf8_ok r \<Longrightarrow> requotes (unquote r)"
  by (simp add: unquote_def requotes_ok requotes_utf8_replace)
lemma pct_decode_not_Nil: "r \<noteq> [] \<Longrightarrow> pct_decode r \<noteq> []"
  by (cases r rule: pct_decode.cases) auto

lemma utf8_replace_not_Nil: "y \<noteq> [] \<Longrightarrow> utf8_replace y \<noteq> []"
proof (cases y)
  case Nil
  assume "y \<noteq> []"
  with Nil show ?thesis by simp
next
  case (Cons b bs)
  show ?thesis
  proof (cases "(of_char b :: nat) < 128")
    case True
    then show ?thesis using Cons by (simp add: utf8_ascii_Cons)
  next
    case False
    then obtain c s where "utf8_replace (b # bs) = c # s"
      using utf8_replace_head by blast
    then show ?thesis using Cons by simp
  qed
qed

lemma unquote_not_Nil: "r \<noteq> [] \<Longrightarrow> unquote r \<noteq> []"
  by (simp add: unquote_def pct_decode_not_Nil utf8_replace_not_Nil)

lemma plus_to_space_not_Nil: "s \<noteq> [] \<Longrightarrow> plus_to_space s \<noteq> []"
  by (simp add: plus_to_space_def)

lemma parse_field_requotes:
  assumes "utf8_ok nv" and "parse_field nv = Some (k, v)"
  shows "requotes k \<and> requotes v \<and> v \<noteq> []"
proof -
  from assms(2) have k: "k = unquote (plus_to_space (before CHR ''='' nv))"
    and v: "v = unquote (plus_to_space (after CHR ''='' nv))"
    and ne: "after CHR ''='' nv \<noteq> []"
    by (auto simp: parse_field_def split: if_splits)
  have "utf8_ok (before CHR ''='' nv) \<and> utf8_ok (after CHR ''='' nv)"
    using assms(1) by (rule utf8_ok_split) simp
  then have "requotes k" "requotes v"
    unfolding k v by (simp_all add: requotes_unquote utf8_ok_plus_to_space)
  moreover have "v \<noteq> []"
    unfolding v using ne by (simp add: unquote_not_Nil plus_to_space_not_Nil)
  ultimately show ?thesis by simp
qed

lemma parse_qsl_requotes:
  assumes "utf8_ok q" and "(k, v) \<in> set (parse_qsl q)"
  shows "requotes k \<and> requotes v \<and> v \<noteq> []"
proof -
  from assms(2) obtain nv where nv: "nv \<in> set (split_all CHR ''&'' q)"
    and pf: "parse_field nv = Some (k, v)"
    by (auto simp: parse_qsl_def map_filter_def)
  have "utf8_ok nv" using assms(1) _ nv by (rule utf8_ok_split_all) simp
  then show ?thesis using pf by (rule parse_field_requotes)
qed

lemma dict_add_new:
  "k \<notin> fst ` set d \<Longrightarrow> dict_add d (k, v) = d @ [(k, [v])]"
  by (induction d "(k, v)" rule: dict_add.induct) auto

lemma dict_add_last:
  "k \<notin> fst ` set d \<Longrightarrow> dict_add (d @ [(k, ws)]) (k, v) = d @ [(k, ws @ [v])]"
  by (induction d "(k, v)" rule: dict_add.induct) auto

lemma foldl_dict_add_values:
  "k \<notin> fst ` set d \<Longrightarrow>
     foldl dict_add (d @ [(k, ws)]) (map (Pair k) vs) = d @ [(k, ws @ vs)]"
  by (induction vs arbitrary: ws) (simp_all add: dict_add_last)

lemma foldl_dict_add_key:
  assumes "k \<notin> fst ` set d" and "vs \<noteq> []"
  shows "foldl dict_add d (map (Pair k) vs) = d @ [(k, vs)]"
proof (cases vs)
  case Nil
  with assms(2) show ?thesis by simp
next
  case (Cons v vs')
  then show ?thesis
    using assms(1) foldl_dict_add_values [of k d "[v]" vs'] by (simp add: dict_add_new)
qed

lemma dict_pairs_Cons: "dict_pairs ((k, vs) # d) = map (Pair k) vs @ dict_pairs d"
  by (simp add: dict_pairs_def)

lemma foldl_dict_add_pairs:
  "distinct (map fst (acc @ d)) \<Longrightarrow> \<forall>kv \<in> set d. snd kv \<noteq> []
     \<Longrightarrow> foldl dict_add acc (dict_pairs d) = acc @ d"
proof (induction d arbitrary: acc)
  case Nil
  then show ?case by (simp add: dict_pairs_def)
next
  case (Cons kv d)
  obtain k vs where kv: "kv = (k, vs)" by (cases kv)
  have k: "k \<notin> fst ` set acc" and vs: "vs \<noteq> []"
    using Cons.prems kv by auto
  have d: "distinct (map fst ((acc @ [(k, vs)]) @ d))"
    using Cons.prems(1) kv by simp
  have r: "\<forall>kv \<in> set d. snd kv \<noteq> []" using Cons.prems(2) by simp
  have "foldl dict_add acc (dict_pairs (kv # d))
          = foldl dict_add (foldl dict_add acc (map (Pair k) vs)) (dict_pairs d)"
    by (simp add: kv dict_pairs_Cons)
  also have "\<dots> = foldl dict_add (acc @ [(k, vs)]) (dict_pairs d)"
    using k vs by (simp add: foldl_dict_add_key)
  also have "\<dots> = (acc @ [(k, vs)]) @ d" using d r by (rule Cons.IH)
  finally show ?case by (simp add: kv)
qed

lemma parse_field_encode_requotes:
  assumes "requotes k" and "requotes v" and "v \<noteq> []"
  shows "parse_field (encode_field (k, v)) = Some (k, v)"
proof -
  have n: "CHR ''='' \<notin> set (quote_plus k)" by (rule quote_plus_no_delim(1))
  have b: "before CHR ''='' (encode_field (k, v)) = quote_plus k"
    using before_append [OF n] by (simp add: encode_field_def)
  have a: "after CHR ''='' (encode_field (k, v)) = quote_plus v"
    using after_append [OF n] by (simp add: encode_field_def)
  have ne: "quote_plus v \<noteq> []"
    using assms(3) by (cases v) (auto simp: quote_plus_def quote_byte_def)
  have e: "CHR ''='' \<in> set (encode_field (k, v))" by (simp add: encode_field_def)
  show ?thesis
    using assms(1,2) ne e by (simp add: parse_field_def a b requotes_def)
qed

lemma map_filter_encode:
  "\<forall>kv \<in> set ps. parse_field (encode_field kv) = Some kv
     \<Longrightarrow> List.map_filter parse_field (map encode_field ps) = ps"
  by (induction ps) (simp_all add: map_filter_simps)

lemma dict_pairs_set:
  "(k, v) \<in> set (dict_pairs d) \<Longrightarrow> \<exists>vs. (k, vs) \<in> set d \<and> v \<in> set vs"
  by (auto simp: dict_pairs_def)

lemma parse_qsl_urlencode_normal:
  assumes "normal_dict d"
  shows "parse_qsl (urlencode d) = dict_pairs d"
proof (cases "dict_pairs d = []")
  case True
  then have "urlencode d = []" by (simp add: urlencode_fields)
  then show ?thesis using True by (simp add: parse_qsl_def map_filter_def parse_field_def)
next
  case False
  have s: "split_all CHR ''&'' (urlencode d) = map encode_field (dict_pairs d)"
    unfolding urlencode_fields
    using split_all_join [of "map encode_field (dict_pairs d)" "CHR ''&''"] False
      encode_field_no_amp by auto
  have "\<forall>kv \<in> set (dict_pairs d). parse_field (encode_field kv) = Some kv"
  proof
    fix kv assume m: "kv \<in> set (dict_pairs d)"
    obtain k v where kv: "kv = (k, v)" by (cases kv)
    from m kv dict_pairs_set obtain vs where vs: "(k, vs) \<in> set d" "v \<in> set vs" by blast
    then have "requotes k" "requotes v" "v \<noteq> []"
      using assms unfolding normal_dict_def by force+
    then show "parse_field (encode_field kv) = Some kv"
      unfolding kv by (rule parse_field_encode_requotes)
  qed
  then show ?thesis unfolding parse_qsl_def s by (rule map_filter_encode)
qed

lemma parse_qs_urlencode_normal:
  assumes "normal_dict d"
  shows "parse_qs (urlencode d) = d"
proof -
  have "foldl dict_add [] (dict_pairs d) = [] @ d"
    using assms by (intro foldl_dict_add_pairs) (simp_all add: normal_dict_def)
  then show ?thesis by (simp add: parse_qs_def parse_qsl_urlencode_normal [OF assms])
qed

lemma dict_add_set:
  "kv' \<in> set (dict_add d (k, v)) \<Longrightarrow>
     kv' \<in> set d \<or> kv' = (k, [v]) \<or> (\<exists>vs. (k, vs) \<in> set d \<and> kv' = (k, vs @ [v]))"
  by (induction d "(k, v)" rule: dict_add.induct) (auto split: if_splits)

lemma dict_add_distinct:
  "distinct (map fst d) \<Longrightarrow> distinct (map fst (dict_add d kv))"
proof (induction d kv rule: dict_add.induct)
  case (1 name v)
  then show ?case by simp
next
  case (2 k vs d name v)
  then show ?case by (auto simp: dict_add_keys)
qed

lemma dict_add_normal:
  assumes "normal_dict d" and "requotes k" and "requotes v" and "v \<noteq> []"
  shows "normal_dict (dict_add d (k, v))"
proof -
  have "distinct (map fst (dict_add d (k, v)))"
    using assms(1) by (simp add: normal_dict_def dict_add_distinct)
  moreover have "requotes (fst kv') \<and> snd kv' \<noteq> [] \<and> (\<forall>w \<in> set (snd kv'). w \<noteq> [] \<and> requotes w)"
    if "kv' \<in> set (dict_add d (k, v))" for kv'
    using dict_add_set [OF that]
  proof (elim disjE exE conjE)
    assume "kv' \<in> set d"
    then show ?thesis using assms(1) by (simp add: normal_dict_def)
  next
    assume "kv' = (k, [v])"
    then show ?thesis using assms(2,3,4) by simp
  next
    fix vs assume m: "(k, vs) \<in> set d" and e: "kv' = (k, vs @ [v])"
    from m assms(1) have "\<forall>w \<in> set vs. w \<noteq> [] \<and> requotes w"
      unfolding normal_dict_def by force
    then show ?thesis using e assms(2,3,4) by auto
  qed
  ultimately show ?thesis unfolding normal_dict_def by blast
qed

lemma foldl_dict_add_normal:
  "normal_dict d \<Longrightarrow> \<forall>kv \<in> set ps. requotes (fst kv) \<and> requotes (snd kv) \<and> snd kv \<noteq> []
     \<Longrightarrow> normal_dict (foldl dict_add d ps)"
proof (induction ps arbitrary: d)
  case Nil
  then show ?case by simp
next
  case (Cons p ps)
  obtain k v where p: "p = (k, v)" by (cases p)
  have "normal_dict (dict_add d (k, v))"
    using Cons.prems p by (intro dict_add_normal) simp_all
  then show ?case using Cons.IH Cons.prems(2) p by simp
qed

lemma parse_qs_normal: "utf8_ok q \<Longrightarrow> normal_dict (parse_qs q)"
proof -
  assume a: "utf8_ok q"
  have "normal_dict []" by (simp add: normal_dict_def)
  moreover have "\<forall>kv \<in> set (parse_qsl q). requotes (fst kv) \<and> requotes (snd kv) \<and> snd kv \<noteq> []"
    using parse_qsl_requotes [OF a] by auto
  ultimately show ?thesis unfolding parse_qs_def by (rule foldl_dict_add_normal)
qed

lemma foldl_dict_pop_filter:
  "foldl dict_pop d ks = filter (\<lambda>kv. fst kv \<notin> set ks) d"
proof (induction ks arbitrary: d)
  case Nil
  then show ?case by simp
next
  case (Cons k ks)
  have "filter (\<lambda>kv. fst kv \<notin> set ks) (filter (\<lambda>kv. fst kv \<noteq> k) d)
          = filter (\<lambda>kv. fst kv \<notin> set (k # ks)) d"
    by (induction d) auto
  then show ?case using Cons.IH [of "dict_pop d k"] by (simp add: dict_pop_def)
qed

lemma filter_normal:
  assumes "normal_dict d"
  shows "normal_dict (filter P d)"
proof -
  have "distinct (map fst (filter P d))"
    using assms by (simp add: normal_dict_def distinct_map_filter)
  moreover have "\<forall>kv \<in> set (filter P d). requotes (fst kv) \<and> snd kv \<noteq> []
                         \<and> (\<forall>v \<in> set (snd kv). v \<noteq> [] \<and> requotes v)"
  proof
    fix kv assume "kv \<in> set (filter P d)"
    then have m: "kv \<in> set d" by simp
    from assms have "\<forall>kv \<in> set d. requotes (fst kv) \<and> snd kv \<noteq> []
                         \<and> (\<forall>v \<in> set (snd kv). v \<noteq> [] \<and> requotes v)"
      unfolding normal_dict_def by (rule conjunct2)
    then show "requotes (fst kv) \<and> snd kv \<noteq> []
                         \<and> (\<forall>v \<in> set (snd kv). v \<noteq> [] \<and> requotes v)"
      using m by (rule bspec)
  qed
  ultimately show ?thesis unfolding normal_dict_def by (rule conjI)
qed

lemma cleaned_normal: "normal_dict d \<Longrightarrow> normal_dict (cleaned d)"
  by (simp add: cleaned_def foldl_dict_pop_filter filter_normal)

lemma cleaned_idem: "cleaned (cleaned d) = cleaned d"
  by (simp add: cleaned_def foldl_dict_pop_filter)

lemma cleaned_dict_add:
  "k \<in> set bad_params \<Longrightarrow> cleaned (dict_add d (k, v)) = cleaned d"
  unfolding cleaned_def foldl_dict_pop_filter
  by (induction d "(k, v)" rule: dict_add.induct) auto

lemma clean_query_cleaned: "clean_query q = urlencode (cleaned (parse_qs q))"
  by (simp add: clean_query_def cleaned_def)

lemma clean_query_idem:
  assumes "utf8_ok q"
  shows "clean_query (clean_query q) = clean_query q"
proof -
  have n: "normal_dict (cleaned (parse_qs q))"
    using assms by (intro cleaned_normal parse_qs_normal)
  show ?thesis
    unfolding clean_query_cleaned parse_qs_urlencode_normal [OF n] cleaned_idem by (rule refl)
qed

subsection \<open>The query string of a tagged URL\<close>

lemma split_all_append_sep:
  "split_all c (a @ c # b) = split_all c a @ split_all c b"
proof (induction a)
  case Nil
  show ?case by (simp only: append_Nil split_all_sep split_all.simps(1)) simp
next
  case (Cons x a)
  obtain p ps where ps: "split_all c a = p # ps"
    using split_all_not_Nil [of c a] by (cases "split_all c a") auto
  show ?case using Cons.IH ps by simp
qed

lemma map_filter_append:
  "List.map_filter f (xs @ ys) = List.map_filter f xs @ List.map_filter f ys"
  by (simp add: map_filter_def)

lemma parse_qsl_append: "parse_qsl (a @ CHR ''&'' # b) = parse_qsl a @ parse_qsl b"
  by (simp add: parse_qsl_def split_all_append_sep map_filter_append)

lemma tag_is_bad: "''tag'' \<in> set bad_params"
  by (simp add: bad_params_def)

lemma plain_tag_chars:
  assumes "plain_tag t"
  shows "CHR ''&'' \<notin> set t" "CHR ''#'' \<notin> set t" "\<forall>c \<in> set t. \<not> unsafe_byte c"
  using assms unfolding plain_tag_def list_all_iff by blast+

lemma parse_qsl_tag:
  assumes "plain_tag t"
  shows "parse_qsl (''tag='' @ t)
           = (if t = [] then [] else [(''tag'', unquote (plus_to_space t))])"
proof -
  note s = plain_tag_chars [OF assms]
  have "CHR ''&'' \<notin> set (''tag='' @ t)" using s(1) by simp
  then have sp: "split_all CHR ''&'' (''tag='' @ t) = [''tag='' @ t]"
    by (rule split_all_no_sep)
  have n: "CHR ''='' \<notin> set ''tag''" by simp
  have b: "before CHR ''='' (''tag='' @ t) = ''tag''"
    using before_append [OF n, of t] by simp
  have a: "after CHR ''='' (''tag='' @ t) = t"
    using after_append [OF n, of t] by simp
  have u1: "unquote (plus_to_space ''tag'') = ''tag''"
    by (simp add: unquote_def plus_to_space_def)
  have e: "CHR ''='' \<in> set (''tag='' @ t)" by simp
  have pf: "parse_field (''tag='' @ t)
              = (if t = [] then None else Some (''tag'', unquote (plus_to_space t)))"
    unfolding parse_field_def a b u1 using e by simp
  show ?thesis unfolding parse_qsl_def sp map_filter_simps pf by simp
qed

lemma cleaned_tag:
  assumes "plain_tag t"
  shows "cleaned (foldl dict_add d (parse_qsl (''tag='' @ t))) = cleaned d"
  unfolding parse_qsl_tag [OF assms] using cleaned_dict_add [OF tag_is_bad] by simp

lemma clean_query_tagged:
  assumes "utf8_ok q" and "plain_tag t"
  shows "clean_query (tagged_query (clean_query q) t) = clean_query q"
proof (cases "clean_query q = []")
  case True
  have "parse_qs (''tag='' @ t) = foldl dict_add [] (parse_qsl (''tag='' @ t))"
    by (simp add: parse_qs_def)
  then have "cleaned (parse_qs (''tag='' @ t)) = cleaned []"
    using cleaned_tag [OF assms(2), of "[]"] by simp
  moreover have "urlencode (cleaned []) = []"
    by (simp add: cleaned_def foldl_dict_pop_filter urlencode_def)
  ultimately have "clean_query (''tag='' @ t) = []"
    unfolding clean_query_cleaned by (rule ssubst)
  then show ?thesis using True by (simp add: tagged_query_def)
next
  case False
  let ?cq = "clean_query q"
  have "parse_qs (?cq @ CHR ''&'' # ''tag='' @ t)
          = foldl dict_add (parse_qs ?cq) (parse_qsl (''tag='' @ t))"
    unfolding parse_qs_def parse_qsl_append by simp
  then have "cleaned (parse_qs (?cq @ CHR ''&'' # ''tag='' @ t)) = cleaned (parse_qs ?cq)"
    using cleaned_tag [OF assms(2)] by simp
  then have "clean_query (?cq @ CHR ''&'' # ''tag='' @ t) = clean_query ?cq"
    by (simp add: clean_query_cleaned)
  then show ?thesis using False clean_query_idem [OF assms(1)] by (simp add: tagged_query_def)
qed

lemma tagged_query_chars:
  assumes "plain_tag t"
  shows "CHR ''#'' \<notin> set (tagged_query (clean_query q) t)"
    "\<forall>x \<in> set (tagged_query (clean_query q) t). \<not> unsafe_byte x"
proof -
  note s = plain_tag_chars [OF assms]
  have l: "CHR ''#'' \<notin> set ''&tag=''" "\<forall>x \<in> set ''&tag=''. \<not> unsafe_byte x"
    by (simp_all add: unsafe_byte_code)
  show "CHR ''#'' \<notin> set (tagged_query (clean_query q) t)"
    using s(2) clean_query_chars(1) [of q] by (simp add: tagged_query_def)
  show "\<forall>x \<in> set (tagged_query (clean_query q) t). \<not> unsafe_byte x"
  proof
    fix x assume "x \<in> set (tagged_query (clean_query q) t)"
    then have "x \<in> set (clean_query q) \<or> x \<in> set ''&tag='' \<or> x \<in> set t"
      by (auto simp: tagged_query_def split: if_splits)
    then show "\<not> unsafe_byte x"
      using s(3) clean_query_chars(2) [of q] l(2) by (elim disjE) blast+
  qed
qed

subsection \<open>Parsing a URL that was put together from its parts\<close>

lemma is_upper_lower: "is_upper c \<Longrightarrow> is_lower (ascii_lower c)"
  unfolding is_lower_def of_char_ascii_lower by (simp add: is_upper_def)

lemma not_upper_lower: "\<not> is_upper (ascii_lower c)"
  unfolding is_upper_def [of "ascii_lower c"] of_char_ascii_lower by (simp add: is_upper_def)

lemma ascii_lower_idem: "ascii_lower (ascii_lower c) = ascii_lower c"
  using not_upper_lower [of c] by (simp add: ascii_lower_def [of "ascii_lower c"])

lemma is_alpha_lower: "is_alpha c \<Longrightarrow> is_alpha (ascii_lower c)"
  using is_upper_lower [of c] by (auto simp: is_alpha_def ascii_lower_def)

lemma scheme_chars_lower: "scheme_chars c \<Longrightarrow> scheme_chars (ascii_lower c)"
  using is_alpha_lower [of c] by (auto simp: scheme_chars_def ascii_lower_def is_alpha_def)

lemma scheme_chars_not_colon: "scheme_chars c \<Longrightarrow> c \<noteq> CHR '':''"
  by (auto simp: scheme_chars_def is_alpha_def is_upper_def is_lower_def is_digit_def)

lemma split_scheme_ok:
  assumes "split_scheme x = (s, r)"
  shows "scheme_ok s"
proof (cases "s = []")
  case True
  then show ?thesis by (simp add: scheme_ok_def)
next
  case False
  let ?pre = "before CHR '':'' x"
  from assms False have s: "s = map ascii_lower ?pre"
    and sc: "list_all scheme_chars ?pre" and al: "is_alpha (hd ?pre)" and ne: "?pre \<noteq> []"
    by (auto simp: split_scheme_def Let_def split: if_splits)
  have a: "list_all scheme_chars s"
    unfolding s using sc scheme_chars_lower by (auto simp: list_all_iff)
  then have b: "CHR '':'' \<notin> set s"
    using scheme_chars_not_colon by (auto simp: list_all_iff)
  have c: "is_alpha (hd s)"
    unfolding s using al ne is_alpha_lower by (simp add: hd_map)
  have d: "map ascii_lower s = s"
    unfolding s by (simp add: ascii_lower_idem)
  show ?thesis unfolding scheme_ok_def using a b c d by simp
qed

lemma split_scheme_rebuilt:
  assumes "scheme_ok s" and "r = [] \<or> hd r = CHR ''/''"
  shows "split_scheme ((if s \<noteq> [] then s @ '':'' else []) @ r) = (s, r)"
proof (cases "s = []")
  case True
  show ?thesis
  proof (cases "r = []")
    case True
    then show ?thesis using \<open>s = []\<close> by (simp add: split_scheme_def before_def)
  next
    case False
    then have h: "hd r = CHR ''/''" using assms(2) by simp
    have "before CHR '':'' r = [] \<or> hd (before CHR '':'' r) = CHR ''/''"
      using False h by (cases r) (auto simp: before_def)
    then have "\<not> (before CHR '':'' r \<noteq> [] \<and> is_alpha (hd (before CHR '':'' r)))"
      by (auto simp: is_alpha_def is_upper_def is_lower_def)
    then show ?thesis using \<open>s = []\<close> by (auto simp: split_scheme_def Let_def)
  qed
next
  case False
  with assms(1) have n: "CHR '':'' \<notin> set s" and sc: "list_all scheme_chars s"
    and al: "is_alpha (hd s)" and lo: "map ascii_lower s = s"
    by (simp_all add: scheme_ok_def)
  have e: "(if s \<noteq> [] then s @ '':'' else []) @ r = s @ CHR '':'' # r"
    using False by simp
  have b: "before CHR '':'' (s @ CHR '':'' # r) = s" using n by (rule before_append)
  have a: "after CHR '':'' (s @ CHR '':'' # r) = r" using n by (rule after_append)
  show ?thesis
    unfolding e split_scheme_def Let_def b a using False sc al lo by simp
qed

lemma takeWhile_stop:
  assumes "\<forall>c \<in> set a. P c" and "b = [] \<or> \<not> P (hd b)"
  shows "takeWhile P (a @ b) = a" "dropWhile P (a @ b) = b"
proof -
  have t: "takeWhile P b = []" using assms(2) by (cases b) auto
  have d: "dropWhile P b = b" using assms(2) by (cases b) auto
  show "takeWhile P (a @ b) = a" using assms(1) t by simp
  show "dropWhile P (a @ b) = b" using assms(1) d by simp
qed

lemma splitnetloc_rebuilt:
  assumes "\<forall>c \<in> set nl. \<not> netloc_delim c" and "r = [] \<or> netloc_delim (hd r)"
  shows "splitnetloc (''//'' @ nl @ r) = (nl, r)"
proof -
  have d: "drop 2 (''//'' @ nl @ r) = nl @ r" by simp
  have "r = [] \<or> \<not> \<not> netloc_delim (hd r)" using assms(2) by simp
  then show ?thesis
    unfolding splitnetloc_def d
    using takeWhile_stop [of nl "\<lambda>c. \<not> netloc_delim c" r] assms(1) by simp
qed

lemma last_segment_no_slash: "CHR ''/'' \<notin> set (last_segment x)"
  unfolding last_segment_def using set_takeWhileD [of _ "\<lambda>c. c \<noteq> CHR ''/''" "rev x"] by auto

lemma last_segment_append:
  assumes "CHR ''/'' \<notin> set s" and "d = [] \<or> last d = CHR ''/''"
  shows "last_segment (d @ s) = s"
proof -
  have h: "rev d = [] \<or> \<not> hd (rev d) \<noteq> CHR ''/''"
    using assms(2) by (cases "d = []") (simp_all add: hd_rev)
  have a: "\<forall>c \<in> set (rev s). c \<noteq> CHR ''/''" using assms(1) by auto
  have "takeWhile (\<lambda>c. c \<noteq> CHR ''/'') (rev s @ rev d) = rev s"
    using a h by (rule takeWhile_stop(1))
  then show ?thesis by (simp add: last_segment_def)
qed

lemma dir_part_rev: "dir_part x = rev (dropWhile (\<lambda>c. c \<noteq> CHR ''/'') (rev x))"
proof -
  let ?P = "\<lambda>c. c \<noteq> CHR ''/''"
  have "rev x = takeWhile ?P (rev x) @ dropWhile ?P (rev x)" by simp
  then have "x = rev (dropWhile ?P (rev x)) @ rev (takeWhile ?P (rev x))"
    by (metis rev_append rev_rev_ident)
  then have e: "x = rev (dropWhile ?P (rev x)) @ last_segment x"
    by (simp add: last_segment_def)
  have "length x - length (last_segment x) = length (rev (dropWhile ?P (rev x)))"
    by (subst e) simp
  then have "dir_part x = take (length (rev (dropWhile ?P (rev x)))) x"
    by (simp add: dir_part_def)
  also have "\<dots> = take (length (rev (dropWhile ?P (rev x))))
                      (rev (dropWhile ?P (rev x)) @ last_segment x)"
    using e by simp
  also have "\<dots> = rev (dropWhile ?P (rev x))" by simp
  finally show ?thesis .
qed

lemma dir_part_segment: "x = dir_part x @ last_segment x"
proof -
  let ?P = "\<lambda>c. c \<noteq> CHR ''/''"
  have "rev x = takeWhile ?P (rev x) @ dropWhile ?P (rev x)" by simp
  then have "x = rev (dropWhile ?P (rev x)) @ rev (takeWhile ?P (rev x))"
    by (metis rev_append rev_rev_ident)
  then show ?thesis by (simp add: dir_part_rev last_segment_def)
qed

lemma dir_part_last: "dir_part x = [] \<or> last (dir_part x) = CHR ''/''"
proof (cases "dir_part x = []")
  case True
  then show ?thesis by simp
next
  case False
  let ?P = "\<lambda>c. c \<noteq> CHR ''/''"
  from False have ne: "dropWhile ?P (rev x) \<noteq> []" by (simp add: dir_part_rev)
  then have "\<not> ?P (hd (dropWhile ?P (rev x)))" by (rule hd_dropWhile)
  then have "hd (dropWhile ?P (rev x)) = CHR ''/''" by simp
  then show ?thesis using ne by (simp add: dir_part_rev last_rev)
qed

lemma dir_part_append:
  assumes "CHR ''/'' \<notin> set s" and "d = [] \<or> last d = CHR ''/''"
  shows "dir_part (d @ s) = d"
  unfolding dir_part_def last_segment_append [OF assms] by simp

lemma splitparams_rebuilt:
  assumes "CHR ''/'' \<notin> set s" and "d = [] \<or> last d = CHR ''/''"
  shows "splitparams (d @ s)
           = (if CHR '';'' \<in> set s then (d @ before CHR '';'' s, after CHR '';'' s)
              else (d @ s, []))"
  using dir_part_append [OF assms] last_segment_append [OF assms]
  by (simp add: splitparams_def Let_def dir_part_def)

lemma params_roundtrip:
  assumes "(if P \<and> CHR '';'' \<in> set x then splitparams x else (x, [])) = (pa, pr)"
  shows "(if P \<and> CHR '';'' \<in> set (if pr \<noteq> [] then pa @ '';'' @ pr else pa)
          then splitparams (if pr \<noteq> [] then pa @ '';'' @ pr else pa)
          else (if pr \<noteq> [] then pa @ '';'' @ pr else pa, [])) = (pa, pr)"
proof (cases "P \<and> CHR '';'' \<in> set (last_segment x)")
  case False
  have l: "set (last_segment x) \<subseteq> set x" by (rule last_segment_subset)
  from False assms have e: "pa = x" "pr = []"
    by (auto simp: splitparams_def Let_def split: if_splits)
  show ?thesis
  proof (cases "P \<and> CHR '';'' \<in> set x")
    case True
    then have "splitparams x = (x, [])" using assms e by simp
    then show ?thesis using True e by simp
  next
    case False
    then show ?thesis using e by auto
  qed
next
  case True
  let ?seg = "last_segment x"
  let ?d = "dir_part x"
  let ?b = "before CHR '';'' ?seg"
  have l: "set ?seg \<subseteq> set x" by (rule last_segment_subset)
  then have c: "P \<and> CHR '';'' \<in> set x" using True by auto
  have x: "x = ?d @ ?seg" by (rule dir_part_segment)
  have ns: "CHR ''/'' \<notin> set ?seg" by (rule last_segment_no_slash)
  have dl: "?d = [] \<or> last ?d = CHR ''/''" by (rule dir_part_last)
  have "splitparams (?d @ ?seg) = (?d @ ?b, after CHR '';'' ?seg)"
    using splitparams_rebuilt [OF ns dl] True by simp
  then have sp: "splitparams x = (?d @ ?b, after CHR '';'' ?seg)" using x by simp
  then have e: "pa = ?d @ ?b" "pr = after CHR '';'' ?seg" using assms c by simp_all
  have nb: "CHR ''/'' \<notin> set ?b" using ns before_subset [of "CHR '';''" ?seg] by auto
  have sb: "CHR '';'' \<notin> set ?b" by (rule before_not_mem)
  have np: "CHR ''/'' \<notin> set pr" using ns after_subset [of "CHR '';''" ?seg] e(2) by auto
  show ?thesis
  proof (cases "pr = []")
    case True
    have "splitparams (?d @ ?b) = (?d @ ?b, [])"
      using splitparams_rebuilt [OF nb dl] sb by simp
    then show ?thesis using True e(1) by simp
  next
    case False
    have n2: "CHR ''/'' \<notin> set (?b @ '';'' @ pr)" using nb np by simp
    have "splitparams (?d @ (?b @ '';'' @ pr))
            = (?d @ before CHR '';'' (?b @ '';'' @ pr), after CHR '';'' (?b @ '';'' @ pr))"
      using splitparams_rebuilt [OF n2 dl] by simp
    moreover have "before CHR '';'' (?b @ '';'' @ pr) = ?b"
      using before_append [OF sb, of pr] by simp
    moreover have "after CHR '';'' (?b @ '';'' @ pr) = pr"
      using after_append [OF sb, of pr] by simp
    ultimately have "splitparams (pa @ '';'' @ pr) = (pa, pr)"
      using e(1) by simp
    then show ?thesis using False c by simp
  qed
qed

lemma params_parts_hd:
  assumes "(if P \<and> CHR '';'' \<in> set x then splitparams x else (x, [])) = (pa, pr)"
    and "x = [] \<or> hd x = CHR ''/''"
  shows "path_params pa pr = [] \<or> hd (path_params pa pr) = CHR ''/''"
proof (cases "P \<and> CHR '';'' \<in> set (last_segment x)")
  case False
  from False assms(1) have "pa = x" "pr = []"
    by (auto simp: splitparams_def Let_def split: if_splits)
  then show ?thesis using assms(2) by (simp add: path_params_def)
next
  case True
  let ?seg = "last_segment x"
  let ?d = "dir_part x"
  have l: "set ?seg \<subseteq> set x" by (rule last_segment_subset)
  then have c: "P \<and> CHR '';'' \<in> set x" using True by auto
  then have xne: "x \<noteq> []" by auto
  then have hx: "hd x = CHR ''/''" using assms(2) by simp
  have x: "x = ?d @ ?seg" by (rule dir_part_segment)
  have ns: "CHR ''/'' \<notin> set ?seg" by (rule last_segment_no_slash)
  have dne: "?d \<noteq> []"
  proof
    assume "?d = []"
    then have "x = ?seg" using x by simp
    then have "CHR ''/'' \<notin> set x" using ns by simp
    then show False using xne hx by (cases x) auto
  qed
  then have hd: "hd ?d = CHR ''/''" using hx x by (metis hd_append2)
  from c assms(1) have "pa = ?d @ before CHR '';'' ?seg"
    by (simp add: splitparams_def Let_def True dir_part_def)
  then have "pa \<noteq> []" "hd pa = CHR ''/''" using dne hd by simp_all
  then show ?thesis by (simp add: path_params_def)
qed

lemma params_roundtrip':
  assumes "(if P \<and> CHR '';'' \<in> set x then splitparams x else (x, [])) = (pa, pr)"
  shows "(if P \<and> CHR '';'' \<in> set (path_params pa pr) then splitparams (path_params pa pr)
          else (path_params pa pr, [])) = (pa, pr)"
  unfolding path_params_def using assms by (rule params_roundtrip)

lemma split_first_hd:
  assumes "(if c \<in> set x then (before c x, after c x) else (x, [])) = (a, b)"
  shows "a = [] \<or> (x \<noteq> [] \<and> hd a = hd x \<and> hd x \<noteq> c)"
proof (cases x)
  case Nil
  with assms show ?thesis by simp
next
  case (Cons y ys)
  show ?thesis
  proof (cases "y = c")
    case True
    then have "a = []" using assms Cons by (simp add: before_def)
    then show ?thesis by simp
  next
    case False
    then have "hd a = y" using assms Cons by (auto simp: before_def split: if_splits)
    then show ?thesis using False Cons by simp
  qed
qed

lemma urlparse_steps:
  assumes "urlparse url = Inr p"
  shows "\<exists>x. urlsplit url = Inr (scheme p, netloc p, x, query p, fragment p)
             \<and> (if scheme p \<in> set uses_params \<and> CHR '';'' \<in> set x then splitparams x
                 else (x, [])) = (path p, params p)"
proof -
  from assms obtain sch nl x q f where s: "urlsplit url = Inr (sch, nl, x, q, f)"
    by (cases "urlsplit url") (auto simp: urlparse_def)
  obtain a b where ab: "(if sch \<in> set uses_params \<and> CHR '';'' \<in> set x then splitparams x
                         else (x, [])) = (a, b)"
    by (cases "if sch \<in> set uses_params \<and> CHR '';'' \<in> set x then splitparams x else (x, [])")
  have "urlparse url = Inr \<lparr>scheme = sch, netloc = nl, path = a, params = b, query = q,
                  fragment = f\<rparr>"
    unfolding urlparse_def s sum.case prod.case Let_def ab by (rule refl)
  with assms have p: "p = \<lparr>scheme = sch, netloc = nl, path = a, params = b, query = q,
                  fragment = f\<rparr>" by simp
  show ?thesis using s ab unfolding p by simp
qed

lemma urlunparse_path_params:
  "urlunparse p = urlunsplit (scheme p) (netloc p) (path_params (path p) (params p)) (query p)
                    (fragment p)"
  by (simp add: urlunparse_def path_params_def)

lemma split_scheme_colon:
  assumes "scheme_ok s" and "s \<noteq> []"
  shows "split_scheme (s @ '':'' @ r) = (s, r)"
proof -
  from assms have n: "CHR '':'' \<notin> set s" and sc: "list_all scheme_chars s"
    and al: "is_alpha (hd s)" and lo: "map ascii_lower s = s"
    by (simp_all add: scheme_ok_def)
  have e: "s @ '':'' @ r = s @ CHR '':'' # r" by simp
  have b: "before CHR '':'' (s @ CHR '':'' # r) = s" using n by (rule before_append)
  have a: "after CHR '':'' (s @ CHR '':'' # r) = r" using n by (rule after_append)
  show ?thesis
    unfolding e split_scheme_def Let_def b a using assms(2) sc al lo by simp
qed

lemma split_scheme_none_iff:
  "fst (split_scheme x) = [] \<longleftrightarrow>
     \<not> (CHR '':'' \<in> set x \<and> before CHR '':'' x \<noteq> [] \<and> is_alpha (hd (before CHR '':'' x))
        \<and> list_all scheme_chars (before CHR '':'' x))"
  by (simp add: split_scheme_def Let_def)

lemma split_scheme_none: "fst (split_scheme x) = [] \<Longrightarrow> split_scheme x = ([], x)"
  by (auto simp: split_scheme_def Let_def split: if_splits)

lemma before_prefix: "c \<in> set a \<Longrightarrow> before c (a @ b) = before c a"
  by (simp add: before_def)

lemma no_scheme_prefix:
  assumes "fst (split_scheme (a @ b)) = []"
  shows "fst (split_scheme a) = []"
proof (rule ccontr)
  assume "fst (split_scheme a) \<noteq> []"
  then have c: "CHR '':'' \<in> set a" and r: "before CHR '':'' a \<noteq> []"
    "is_alpha (hd (before CHR '':'' a))" "list_all scheme_chars (before CHR '':'' a)"
    unfolding split_scheme_none_iff by simp_all
  have "before CHR '':'' (a @ b) = before CHR '':'' a" using c by (rule before_prefix)
  then have "fst (split_scheme (a @ b)) \<noteq> []"
    unfolding split_scheme_none_iff using c r by simp
  then show False using assms by simp
qed

lemma tail_start_not_scheme: "tail_start t \<Longrightarrow> t \<noteq> [] \<Longrightarrow> \<not> scheme_chars (hd t)"
  by (auto simp: tail_start_def scheme_chars_def is_alpha_def is_upper_def is_lower_def
        is_digit_def)

lemma no_scheme_tail:
  assumes "fst (split_scheme x) = []" and "tail_start t"
  shows "split_scheme (x @ t) = ([], x @ t)"
proof (rule split_scheme_none, rule ccontr)
  assume "fst (split_scheme (x @ t)) \<noteq> []"
  then have c: "CHR '':'' \<in> set (x @ t)" and r: "before CHR '':'' (x @ t) \<noteq> []"
    "is_alpha (hd (before CHR '':'' (x @ t)))" "list_all scheme_chars (before CHR '':'' (x @ t))"
    unfolding split_scheme_none_iff by simp_all
  show False
  proof (cases "CHR '':'' \<in> set x")
    case True
    have "before CHR '':'' (x @ t) = before CHR '':'' x" using True by (rule before_prefix)
    then have "fst (split_scheme x) \<noteq> []"
      unfolding split_scheme_none_iff using True r by simp
    then show False using assms(1) by simp
  next
    case False
    with c have tne: "t \<noteq> []" by auto
    have "before CHR '':'' (x @ t) = x @ before CHR '':'' t"
      using False by (induction x) (auto simp: before_def)
    moreover have "hd t \<in> set (before CHR '':'' t)"
      using tne assms(2) by (cases t) (auto simp: before_def tail_start_def)
    ultimately have "hd t \<in> set (before CHR '':'' (x @ t))" by simp
    then have "scheme_chars (hd t)" using r(3) by (auto simp: list_all_iff)
    then show False using tail_start_not_scheme [OF assms(2) tne] by simp
  qed
qed

lemma rejoin_prefix:
  assumes "(if P \<and> CHR '';'' \<in> set x then splitparams x else (x, [])) = (pa, pr)"
  shows "\<exists>w. x = path_params pa pr @ w"
proof (cases "P \<and> CHR '';'' \<in> set (last_segment x)")
  case False
  from False assms have "pa = x" "pr = []"
    by (auto simp: splitparams_def Let_def split: if_splits)
  then have "x = path_params pa pr @ []" by (simp add: path_params_def)
  then show ?thesis ..
next
  case True
  let ?seg = "last_segment x"
  let ?d = "dir_part x"
  have l: "set ?seg \<subseteq> set x" by (rule last_segment_subset)
  then have c: "P \<and> CHR '';'' \<in> set x" using True by auto
  have x: "x = ?d @ ?seg" by (rule dir_part_segment)
  from c assms True have e: "pa = ?d @ before CHR '';'' ?seg" "pr = after CHR '';'' ?seg"
    by (simp_all add: splitparams_def Let_def dir_part_def)
  have s: "?seg = before CHR '';'' ?seg @ [CHR '';''] @ after CHR '';'' ?seg"
    using True by (intro split_around) simp
  have xe: "x = pa @ [CHR '';''] @ pr"
    unfolding e using x s by (metis append_assoc)
  show ?thesis
  proof (cases "pr = []")
    case True
    then have "x = path_params pa pr @ '';''" using xe by (simp add: path_params_def)
    then show ?thesis ..
  next
    case False
    then have "x = path_params pa pr @ []" using xe by (simp add: path_params_def)
    then show ?thesis ..
  qed
qed

lemma urlsplit_inv:
  assumes "urlsplit url0 = Inr (sch, nl, x, q, f)"
  shows "scheme_ok sch" and "\<forall>c \<in> set nl. \<not> netloc_delim c" and "\<not> bad_brackets nl"
    and "nl \<noteq> [] \<longrightarrow> x = [] \<or> hd x = CHR ''/''"
    and "sch = [] \<and> nl = [] \<longrightarrow> fst (split_scheme x) = [] \<and> (x = [] \<or> \<not> c0_or_space (hd x))"
    and "\<not> bad_host nl"
proof -
  define url1 where "url1 = filter (\<lambda>c. \<not> unsafe_byte c) (dropWhile c0_or_space url0)"
  obtain s url2 where ss: "split_scheme url1 = (s, url2)"
    by (cases "split_scheme url1")
  obtain n url3 where nn: "(if take 2 url2 = ''//'' then splitnetloc url2 else ([], url2)) = (n, url3)"
    by (cases "if take 2 url2 = ''//'' then splitnetloc url2 else ([], url2)")
  obtain url4 fr where ff: "(if CHR ''#'' \<in> set url3 then (before CHR ''#'' url3, after CHR ''#'' url3)
                  else (url3, [])) = (url4, fr)"
    by (cases "if CHR ''#'' \<in> set url3 then (before CHR ''#'' url3, after CHR ''#'' url3)
                  else (url3, [])")
  obtain url5 qr where qq: "(if CHR ''?'' \<in> set url4 then (before CHR ''?'' url4, after CHR ''?'' url4)
                  else (url4, [])) = (url5, qr)"
    by (cases "if CHR ''?'' \<in> set url4 then (before CHR ''?'' url4, after CHR ''?'' url4)
                  else (url4, [])")
  have "urlsplit url0 = (if bad_brackets n then Inl ValueError
                         else if bad_host n then Inl ValueError
                         else Inr (s, n, url5, qr, fr))"
    unfolding urlsplit_def url1_def [symmetric] Let_def ss prod.case nn ff qq by (rule refl)
  with assms(1) have eq: "sch = s" "nl = n" "x = url5" and nb: "\<not> bad_brackets n"
    and nh: "\<not> bad_host n"
    by (simp_all split: if_splits)
  show "\<not> bad_host nl" unfolding eq(2) by (rule nh)
  show "scheme_ok sch" unfolding eq(1) using ss by (rule split_scheme_ok)
  show "\<forall>c \<in> set nl. \<not> netloc_delim c"
    unfolding eq(2) using splitnetloc_parts [OF nn] by simp
  show "\<not> bad_brackets nl" unfolding eq(2) by (rule nb)
  have p45: "\<exists>w. url4 = url5 @ w"
  proof (cases "CHR ''?'' \<in> set url4")
    case True
    then have "url4 = before CHR ''?'' url4 @ ([CHR ''?''] @ after CHR ''?'' url4)"
      using split_around [of "CHR ''?''" url4] by simp
    moreover have "url5 = before CHR ''?'' url4" using qq True by simp
    ultimately have "url4 = url5 @ ([CHR ''?''] @ after CHR ''?'' url4)" by simp
    then show ?thesis ..
  next
    case False
    then have "url4 = url5 @ []" using qq by simp
    then show ?thesis ..
  qed
  have p34: "\<exists>w. url3 = url4 @ w"
  proof (cases "CHR ''#'' \<in> set url3")
    case True
    then have "url3 = before CHR ''#'' url3 @ ([CHR ''#''] @ after CHR ''#'' url3)"
      using split_around [of "CHR ''#''" url3] by simp
    moreover have "url4 = before CHR ''#'' url3" using ff True by simp
    ultimately have "url3 = url4 @ ([CHR ''#''] @ after CHR ''#'' url3)" by simp
    then show ?thesis ..
  next
    case False
    then have "url3 = url4 @ []" using ff by simp
    then show ?thesis ..
  qed
  from p34 p45 obtain w where p35: "url3 = url5 @ w" by auto
  have slash: "url5 = [] \<or> hd url5 = CHR ''/''" if t: "take 2 url2 = ''//''"
  proof -
    from t have "url3 = dropWhile (\<lambda>c. \<not> netloc_delim c) (drop 2 url2)"
      using nn by (simp add: splitnetloc_def)
    then have h3: "url3 = [] \<or> netloc_delim (hd url3)"
      using hd_dropWhile [of "\<lambda>c. \<not> netloc_delim c" "drop 2 url2"] by auto
    have h4: "url4 = [] \<or> (hd url4 = CHR ''/'' \<or> hd url4 = CHR ''?'')"
      using split_first_hd [OF ff] h3 by (auto simp: netloc_delim_def)
    show ?thesis using split_first_hd [OF qq] h4 by auto
  qed
  show "nl \<noteq> [] \<longrightarrow> x = [] \<or> hd x = CHR ''/''"
  proof
    assume ne: "nl \<noteq> []"
    have "take 2 url2 = ''//''"
    proof (rule ccontr)
      assume "take 2 url2 \<noteq> ''//''"
      then have "n = []" using nn by simp
      then show False using ne eq(2) by simp
    qed
    then show "x = [] \<or> hd x = CHR ''/''" unfolding eq(3) by (rule slash)
  qed
  show "sch = [] \<and> nl = [] \<longrightarrow> fst (split_scheme x) = [] \<and> (x = [] \<or> \<not> c0_or_space (hd x))"
  proof
    assume a: "sch = [] \<and> nl = []"
    show "fst (split_scheme x) = [] \<and> (x = [] \<or> \<not> c0_or_space (hd x))"
    proof (cases "take 2 url2 = ''//''")
      case True
      from slash [OF True] have s5: "x = [] \<or> hd x = CHR ''/''" unfolding eq(3) .
      then have "before CHR '':'' x = [] \<or> hd (before CHR '':'' x) = CHR ''/''"
        by (cases x) (auto simp: before_def)
      then have "\<not> (before CHR '':'' x \<noteq> [] \<and> is_alpha (hd (before CHR '':'' x)))"
        by (auto simp: is_alpha_def is_upper_def is_lower_def)
      then have "fst (split_scheme x) = []" unfolding split_scheme_none_iff by blast
      moreover have "x = [] \<or> \<not> c0_or_space (hd x)"
        using s5 by (auto simp: c0_or_space_def)
      ultimately show ?thesis ..
    next
      case False
      then have u3: "url3 = url2" using nn by simp
      have "fst (split_scheme url1) = []" using ss a eq(1) by simp
      then have "split_scheme url1 = ([], url1)" by (rule split_scheme_none)
      then have u2: "url2 = url1" using ss by simp
      have e: "url1 = x @ w" using p35 u3 u2 eq(3) by simp
      have "fst (split_scheme (x @ w)) = []" using \<open>fst (split_scheme url1) = []\<close> e by simp
      then have n: "fst (split_scheme x) = []" by (rule no_scheme_prefix)
      have h1: "url1 = [] \<or> \<not> c0_or_space (hd url1)"
      proof (cases "dropWhile c0_or_space url0")
        case Nil
        have "url1 = []" unfolding url1_def Nil by simp
        then show ?thesis ..
      next
        case (Cons y ys)
        then have y: "\<not> c0_or_space y"
          using hd_dropWhile [of c0_or_space url0] by auto
        then have "\<not> unsafe_byte y" by (auto simp: c0_or_space_def unsafe_byte_def)
        then have "hd url1 = y" unfolding url1_def Cons by simp
        then show ?thesis using y by simp
      qed
      have "x = [] \<or> \<not> c0_or_space (hd x)"
      proof (cases "x = []")
        case True
        then show ?thesis ..
      next
        case False
        then have "hd url1 = hd x" "url1 \<noteq> []" using e by simp_all
        then show ?thesis using h1 by simp
      qed
      with n show ?thesis ..
    qed
  qed
qed

lemma slashed_hd: "slashed x = [] \<or> hd (slashed x) = CHR ''/''"
  by (cases x) (auto simp: slashed_def)

lemma slashed_idem: "slashed (slashed x) = slashed x"
  by (cases x) (auto simp: slashed_def)

lemma slashed_cases: "slashed x = x \<or> (slashed x = CHR ''/'' # x \<and> x \<noteq> [] \<and> hd x \<noteq> CHR ''/'')"
  by (cases x) (auto simp: slashed_def)

lemma slashed_chars: "\<forall>c \<in> set x. head_char c \<Longrightarrow> \<forall>c \<in> set (slashed x). head_char c"
  using head_chars_literal(2) by (auto simp: slashed_def)

lemma url_head_auth:
  assumes "nl \<noteq> [] \<or> (sch \<noteq> [] \<and> sch \<in> set uses_netloc) \<or> take 2 x = ''//''"
  shows "url_head sch nl x = scheme_colon sch @ ''//'' @ nl @ slashed x"
  using assms unfolding url_head_def Let_def slashed_def scheme_colon_def by auto

lemma url_head_plain:
  assumes "\<not> (nl \<noteq> [] \<or> (sch \<noteq> [] \<and> sch \<in> set uses_netloc) \<or> take 2 x = ''//'')"
  shows "url_head sch nl x = scheme_colon sch @ x"
  using assms unfolding url_head_def Let_def scheme_colon_def by auto

lemma alpha_not_c0: "is_alpha c \<Longrightarrow> \<not> c0_or_space c"
  by (auto simp: is_alpha_def is_upper_def is_lower_def c0_or_space_def)

lemma lstrip_scheme:
  assumes "scheme_ok sch" and "sch \<noteq> []"
  shows "dropWhile c0_or_space (scheme_colon sch @ r) = scheme_colon sch @ r"
proof -
  from assms have "is_alpha (hd sch)" by (simp add: scheme_ok_def)
  then have "\<not> c0_or_space (hd sch)" by (rule alpha_not_c0)
  then show ?thesis using assms(2) by (cases sch) (simp_all add: scheme_colon_def)
qed

lemma scheme_colon_chars:
  "\<forall>c \<in> set sch. head_char c \<Longrightarrow> \<forall>c \<in> set (scheme_colon sch). head_char c"
  using head_chars_literal(1) by (auto simp: scheme_colon_def)

lemma split_tail:
  assumes x: "\<forall>c \<in> set x. head_char c" and q: "CHR ''#'' \<notin> set q"
  shows "(if CHR ''#'' \<in> set (x @ url_tail q f)
          then (before CHR ''#'' (x @ url_tail q f), after CHR ''#'' (x @ url_tail q f))
          else (x @ url_tail q f, []))
         = (x @ (if q \<noteq> [] then ''?'' @ q else []), f)"
    and "(if CHR ''?'' \<in> set (x @ (if q \<noteq> [] then ''?'' @ q else []))
          then (before CHR ''?'' (x @ (if q \<noteq> [] then ''?'' @ q else [])),
                after CHR ''?'' (x @ (if q \<noteq> [] then ''?'' @ q else [])))
          else (x @ (if q \<noteq> [] then ''?'' @ q else []), [])) = (x, q)"
proof -
  let ?qq = "if q \<noteq> [] then ''?'' @ q else []"
  let ?ff = "if f \<noteq> [] then ''#'' @ f else []"
  have xc: "CHR ''?'' \<notin> set x" "CHR ''#'' \<notin> set x"
    using x unfolding head_char_def by metis+
  have e: "x @ url_tail q f = (x @ ?qq) @ ?ff" by (simp add: url_tail_def)
  have n: "CHR ''#'' \<notin> set (x @ ?qq)" using xc(2) q by simp
  show "(if CHR ''#'' \<in> set (x @ url_tail q f)
          then (before CHR ''#'' (x @ url_tail q f), after CHR ''#'' (x @ url_tail q f))
          else (x @ url_tail q f, [])) = (x @ ?qq, f)"
    unfolding e using n by (rule split_fragment)
  show "(if CHR ''?'' \<in> set (x @ ?qq)
          then (before CHR ''?'' (x @ ?qq), after CHR ''?'' (x @ ?qq))
          else (x @ ?qq, [])) = (x, q)"
    using xc(1) by (rule split_query)
qed

lemma urlsplit_auth:
  assumes sch: "scheme_ok sch" "\<forall>c \<in> set sch. head_char c"
    and nl: "\<forall>c \<in> set nl. \<not> netloc_delim c" "\<not> bad_brackets nl" "\<forall>c \<in> set nl. head_char c"
      "\<not> bad_host nl"
    and z: "z = [] \<or> hd z = CHR ''/''" "\<forall>c \<in> set z. head_char c"
    and q: "CHR ''#'' \<notin> set q" "\<forall>c \<in> set q. \<not> unsafe_byte c"
    and f: "\<forall>c \<in> set f. \<not> unsafe_byte c"
  shows "urlsplit (scheme_colon sch @ ''//'' @ nl @ z @ url_tail q f) = Inr (sch, nl, z, q, f)"
proof -
  let ?t = "url_tail q f"
  let ?r = "''//'' @ nl @ z @ ?t"
  let ?c = "scheme_colon sch @ ?r"
  have ls: "dropWhile c0_or_space ?c = ?c"
  proof (cases "sch = []")
    case True
    then show ?thesis by (simp add: scheme_colon_def c0_or_space_def)
  next
    case False
    with sch(1) show ?thesis by (rule lstrip_scheme)
  qed
  have hc: "\<forall>c \<in> set (scheme_colon sch @ ''//'' @ nl @ z). head_char c"
    using scheme_colon_chars [OF sch(2)] nl(3) z(2) head_chars_literal(2) by auto
  have "filter (\<lambda>c. \<not> unsafe_byte c) ((scheme_colon sch @ ''//'' @ nl @ z) @ ?t)
          = (scheme_colon sch @ ''//'' @ nl @ z) @ ?t"
    using hc q(2) f by (rule rebuilt_no_unsafe)
  then have fl: "filter (\<lambda>c. \<not> unsafe_byte c) ?c = ?c" by simp
  have "split_scheme ((if sch \<noteq> [] then sch @ '':'' else []) @ ?r) = (sch, ?r)"
    using sch(1) by (rule split_scheme_rebuilt) simp
  then have ss: "split_scheme ?c = (sch, ?r)" by (simp add: scheme_colon_def)
  have zt: "z @ ?t = [] \<or> netloc_delim (hd (z @ ?t))"
  proof (cases z)
    case Nil
    then show ?thesis
      using url_tail_start [of q f] by (auto simp: tail_start_def netloc_delim_def)
  next
    case (Cons a z')
    then show ?thesis using z(1) by (simp add: netloc_delim_def)
  qed
  have "splitnetloc (''//'' @ nl @ (z @ ?t)) = (nl, z @ ?t)"
    using nl(1) zt by (rule splitnetloc_rebuilt)
  then have nn: "(if take 2 ?r = ''//'' then splitnetloc ?r else ([], ?r)) = (nl, z @ ?t)"
    by simp
  note st = split_tail(1) [OF z(2) q(1), of f] split_tail(2) [OF z(2) q(1)]
  have "urlsplit ?c = (if bad_brackets nl then Inl ValueError
                       else if bad_host nl then Inl ValueError
                       else Inr (sch, nl, z, q, f))"
    unfolding urlsplit_def ls fl Let_def ss prod.case nn st by (rule refl)
  then show ?thesis using nl(2) nl(4) by simp
qed

lemma take2_tail:
  assumes "take 2 x \<noteq> ''//''" and "tail_start t"
  shows "take 2 (x @ t) \<noteq> ''//''"
proof (cases x)
  case Nil
  then show ?thesis using assms(2) by (cases t) (auto simp: tail_start_def take2_eq)
next
  case (Cons a x')
  show ?thesis
  proof (cases x')
    case Nil
    then show ?thesis
      using Cons assms(2) by (cases t) (auto simp: tail_start_def)
  next
    case (Cons b x'')
    then show ?thesis using \<open>x = a # x'\<close> assms(1) by simp
  qed
qed

lemma urlsplit_plain:
  assumes sch: "scheme_ok sch" "\<forall>c \<in> set sch. head_char c"
    and x: "\<forall>c \<in> set x. head_char c" "take 2 x \<noteq> ''//''"
      "sch = [] \<longrightarrow> fst (split_scheme x) = [] \<and> (x = [] \<or> \<not> c0_or_space (hd x))"
    and q: "CHR ''#'' \<notin> set q" "\<forall>c \<in> set q. \<not> unsafe_byte c"
    and f: "\<forall>c \<in> set f. \<not> unsafe_byte c"
  shows "urlsplit (scheme_colon sch @ x @ url_tail q f) = Inr (sch, [], x, q, f)"
proof -
  let ?t = "url_tail q f"
  let ?r = "x @ ?t"
  let ?c = "scheme_colon sch @ ?r"
  have ts: "tail_start ?t" by (rule url_tail_start)
  have ls: "dropWhile c0_or_space ?c = ?c"
  proof (cases "sch = []")
    case True
    have "dropWhile c0_or_space (x @ ?t) = dropWhile c0_or_space x @ ?t"
      using ts by (rule lstrip_tail)
    moreover have "dropWhile c0_or_space x = x"
      using x(3) True by (cases x) auto
    ultimately show ?thesis using True by (simp add: scheme_colon_def)
  next
    case False
    with sch(1) show ?thesis by (rule lstrip_scheme)
  qed
  have hc: "\<forall>c \<in> set (scheme_colon sch @ x). head_char c"
    using scheme_colon_chars [OF sch(2)] x(1) by auto
  have "filter (\<lambda>c. \<not> unsafe_byte c) ((scheme_colon sch @ x) @ ?t) = (scheme_colon sch @ x) @ ?t"
    using hc q(2) f by (rule rebuilt_no_unsafe)
  then have fl: "filter (\<lambda>c. \<not> unsafe_byte c) ?c = ?c" by simp
  have ss: "split_scheme ?c = (sch, ?r)"
  proof (cases "sch = []")
    case True
    then have "fst (split_scheme x) = []" using x(3) by simp
    then have "split_scheme (x @ ?t) = ([], x @ ?t)" using ts by (rule no_scheme_tail)
    then show ?thesis using True by (simp add: scheme_colon_def)
  next
    case False
    with sch(1) have "split_scheme (sch @ '':'' @ ?r) = (sch, ?r)" by (rule split_scheme_colon)
    then show ?thesis using False by (simp add: scheme_colon_def)
  qed
  have "take 2 ?r \<noteq> ''//''" using x(2) ts by (rule take2_tail)
  then have nn: "(if take 2 ?r = ''//'' then splitnetloc ?r else ([], ?r)) = ([], ?r)"
    by (rule if_not_P)
  note st = split_tail(1) [OF x(1) q(1), of f] split_tail(2) [OF x(1) q(1)]
  have "urlsplit ?c = (if bad_brackets [] then Inl ValueError
                       else if bad_host [] then Inl ValueError
                       else Inr (sch, [], x, q, f))"
    unfolding urlsplit_def ls fl Let_def ss prod.case nn st by (rule refl)
  then show ?thesis by (simp add: bad_brackets_def bad_host_def)
qed

lemma last_segment_slash: "last_segment (CHR ''/'' # x) = last_segment x"
proof -
  have "takeWhile (\<lambda>c. c \<noteq> CHR ''/'') (rev x @ (CHR ''/'' # []))
          = takeWhile (\<lambda>c. c \<noteq> CHR ''/'') (rev x)"
    by (rule takeWhile_tail) simp
  then show ?thesis by (simp add: last_segment_def)
qed

lemma splitparams_slash:
  "splitparams (CHR ''/'' # x) = (CHR ''/'' # fst (splitparams x), snd (splitparams x))"
proof -
  have l: "length (last_segment x) \<le> length x"
    unfolding last_segment_def using length_takeWhile_le [of _ "rev x"] by simp
  then have "Suc (length x) - length (last_segment x) = Suc (length x - length (last_segment x))"
    by simp
  then show ?thesis
    unfolding splitparams_def Let_def last_segment_slash by simp
qed

lemma params_slash:
  assumes "(if P \<and> CHR '';'' \<in> set x then splitparams x else (x, [])) = (pa, pr)"
  shows "(if P \<and> CHR '';'' \<in> set (CHR ''/'' # x) then splitparams (CHR ''/'' # x)
          else (CHR ''/'' # x, [])) = (CHR ''/'' # pa, pr)"
proof (cases "P \<and> CHR '';'' \<in> set x")
  case True
  then have "splitparams x = (pa, pr)" using assms by simp
  then show ?thesis using True by (simp add: splitparams_slash)
next
  case False
  then show ?thesis using assms by auto
qed

lemma path_params_slash: "path_params (CHR ''/'' # pa) pr = CHR ''/'' # path_params pa pr"
  by (simp add: path_params_def)

lemma params_slashed:
  assumes "(if P \<and> CHR '';'' \<in> set x then splitparams x else (x, [])) = (pa, pr)"
  shows "\<exists>pa2 pr2.
           (if P \<and> CHR '';'' \<in> set (slashed (path_params pa pr))
            then splitparams (slashed (path_params pa pr))
            else (slashed (path_params pa pr), [])) = (pa2, pr2)
           \<and> path_params pa2 pr2 = slashed (path_params pa pr)"
proof -
  let ?x = "path_params pa pr"
  have rt: "(if P \<and> CHR '';'' \<in> set ?x then splitparams ?x else (?x, [])) = (pa, pr)"
    using assms by (rule params_roundtrip')
  from slashed_cases [of ?x] show ?thesis
  proof
    assume e: "slashed ?x = ?x"
    show ?thesis unfolding e using rt by (intro exI conjI) (rule rt, rule refl)
  next
    assume "slashed ?x = CHR ''/'' # ?x \<and> ?x \<noteq> [] \<and> hd ?x \<noteq> CHR ''/''"
    then have e: "slashed ?x = CHR ''/'' # ?x" by simp
    have "(if P \<and> CHR '';'' \<in> set (CHR ''/'' # ?x) then splitparams (CHR ''/'' # ?x)
           else (CHR ''/'' # ?x, [])) = (CHR ''/'' # pa, pr)"
      using rt by (rule params_slash)
    moreover have "path_params (CHR ''/'' # pa) pr = CHR ''/'' # ?x"
      by (rule path_params_slash)
    ultimately show ?thesis unfolding e by (intro exI conjI)
  qed
qed

lemma urlunparse_head_tail:
  "urlunparse p = url_head (scheme p) (netloc p) (path_params (path p) (params p))
                    @ url_tail (query p) (fragment p)"
  by (simp add: urlunparse_path_params urlunsplit_head_tail)

lemma urlparse_inv:
  assumes "urlparse u = Inr p"
  shows "scheme_ok (scheme p)"
    and "\<forall>c \<in> set (scheme p). head_char c"
    and "\<forall>c \<in> set (netloc p). \<not> netloc_delim c"
    and "\<not> bad_brackets (netloc p)"
    and "\<forall>c \<in> set (netloc p). head_char c"
    and "\<forall>c \<in> set (path_params (path p) (params p)). head_char c"
    and "\<forall>c \<in> set (fragment p). \<not> unsafe_byte c"
    and "netloc p \<noteq> [] \<longrightarrow> path_params (path p) (params p) = []
           \<or> hd (path_params (path p) (params p)) = CHR ''/''"
    and "scheme p = [] \<and> netloc p = [] \<longrightarrow>
           fst (split_scheme (path_params (path p) (params p))) = []
           \<and> (path_params (path p) (params p) = []
              \<or> \<not> c0_or_space (hd (path_params (path p) (params p))))"
    and "(if scheme p \<in> set uses_params \<and> CHR '';'' \<in> set (path_params (path p) (params p))
          then splitparams (path_params (path p) (params p))
          else (path_params (path p) (params p), [])) = (path p, params p)"
    and "\<not> bad_host (netloc p)"
proof -
  let ?x = "path_params (path p) (params p)"
  from urlparse_steps [OF assms] obtain x0 where
    s: "urlsplit u = Inr (scheme p, netloc p, x0, query p, fragment p)"
    and ab: "(if scheme p \<in> set uses_params \<and> CHR '';'' \<in> set x0 then splitparams x0
                 else (x0, [])) = (path p, params p)"
    by (elim exE conjE)
  note parts = urlsplit_parts [OF s]
  note inv = urlsplit_inv [OF s]
  show "scheme_ok (scheme p)" by (rule inv(1))
  show "\<forall>c \<in> set (scheme p). head_char c" using parts by simp
  show "\<forall>c \<in> set (netloc p). \<not> netloc_delim c" by (rule inv(2))
  show "\<not> bad_brackets (netloc p)" by (rule inv(3))
  show "\<not> bad_host (netloc p)" by (rule inv(6))
  show "\<forall>c \<in> set (netloc p). head_char c" using parts by simp
  show "\<forall>c \<in> set (fragment p). \<not> unsafe_byte c" using parts by simp
  have sub: "set (path p) \<subseteq> set x0 \<and> set (params p) \<subseteq> set x0"
    using ab by (rule splitparams_parts)
  show "\<forall>c \<in> set ?x. head_char c"
  proof
    fix c assume "c \<in> set ?x"
    then have "c \<in> set x0 \<or> c = CHR '';''"
      using sub by (auto simp: path_params_def split: if_splits)
    then show "head_char c" using parts head_chars_literal(3) by (elim disjE) simp_all
  qed
  show "netloc p \<noteq> [] \<longrightarrow> ?x = [] \<or> hd ?x = CHR ''/''"
  proof
    assume "netloc p \<noteq> []"
    then have "x0 = [] \<or> hd x0 = CHR ''/''" using inv(4) by simp
    with ab show "?x = [] \<or> hd ?x = CHR ''/''" by (rule params_parts_hd)
  qed
  from rejoin_prefix [OF ab] obtain w where w: "x0 = ?x @ w" ..
  show "scheme p = [] \<and> netloc p = [] \<longrightarrow>
           fst (split_scheme ?x) = [] \<and> (?x = [] \<or> \<not> c0_or_space (hd ?x))"
  proof
    assume "scheme p = [] \<and> netloc p = []"
    then have a: "fst (split_scheme x0) = []" and b: "x0 = [] \<or> \<not> c0_or_space (hd x0)"
      using inv(5) by simp_all
    have "fst (split_scheme (?x @ w)) = []" using a w by simp
    then have n: "fst (split_scheme ?x) = []" by (rule no_scheme_prefix)
    have "?x = [] \<or> \<not> c0_or_space (hd ?x)"
    proof (cases "?x = []")
      case True
      then show ?thesis ..
    next
      case False
      then have "hd x0 = hd ?x" "x0 \<noteq> []" using w by (metis hd_append2, simp)
      then show ?thesis using b by simp
    qed
    with n show "fst (split_scheme ?x) = [] \<and> (?x = [] \<or> \<not> c0_or_space (hd ?x))" ..
  qed
  show "(if scheme p \<in> set uses_params \<and> CHR '';'' \<in> set ?x then splitparams ?x
         else (?x, [])) = (path p, params p)"
    using ab by (rule params_roundtrip')
qed

lemma urlparse_of_split:
  assumes "urlsplit c = Inr (sch, nl, x, q, f)"
    and "(if sch \<in> set uses_params \<and> CHR '';'' \<in> set x then splitparams x else (x, []))
           = (pa, pr)"
  shows "urlparse c = Inr \<lparr>scheme = sch, netloc = nl, path = pa, params = pr, query = q,
                           fragment = f\<rparr>"
  unfolding urlparse_def assms(1) sum.case prod.case Let_def assms(2) by (rule refl)

lemma urlparse_rebuilt:
  assumes u: "urlparse u = Inr p"
    and q: "CHR ''#'' \<notin> set q" "\<forall>c \<in> set q. \<not> unsafe_byte c"
  shows "\<exists>p2. urlparse (urlunparse (p\<lparr>query := q\<rparr>)) = Inr p2
           \<and> query p2 = q \<and> fragment p2 = fragment p
           \<and> url_head (scheme p2) (netloc p2) (path_params (path p2) (params p2))
               = url_head (scheme p) (netloc p) (path_params (path p) (params p))"
proof -
  let ?sch = "scheme p" and ?nl = "netloc p" and ?f = "fragment p"
  let ?x = "path_params (path p) (params p)"
  note inv = urlparse_inv [OF u]
  have c: "urlunparse (p\<lparr>query := q\<rparr>) = url_head ?sch ?nl ?x @ url_tail q ?f"
    by (simp add: urlunparse_head_tail)
  show ?thesis
  proof (cases "?nl \<noteq> [] \<or> (?sch \<noteq> [] \<and> ?sch \<in> set uses_netloc) \<or> take 2 ?x = ''//''")
    case True
    have h: "url_head ?sch ?nl ?x = scheme_colon ?sch @ ''//'' @ ?nl @ slashed ?x"
      using True by (rule url_head_auth)
    have sp: "urlsplit (scheme_colon ?sch @ ''//'' @ ?nl @ slashed ?x @ url_tail q ?f)
                = Inr (?sch, ?nl, slashed ?x, q, ?f)"
      using inv(1) inv(2) inv(3) inv(4) inv(5) inv(11) slashed_hd slashed_chars [OF inv(6)] q
        inv(7)
      by (rule urlsplit_auth)
    from params_slashed [OF inv(10)] obtain pa2 pr2 where
      ab2: "(if ?sch \<in> set uses_params \<and> CHR '';'' \<in> set (slashed ?x)
             then splitparams (slashed ?x) else (slashed ?x, [])) = (pa2, pr2)"
      and pp: "path_params pa2 pr2 = slashed ?x"
      by (elim exE conjE)
    let ?p2 = "\<lparr>scheme = ?sch, netloc = ?nl, path = pa2, params = pr2, query = q,
                fragment = ?f\<rparr>"
    have "urlparse (scheme_colon ?sch @ ''//'' @ ?nl @ slashed ?x @ url_tail q ?f) = Inr ?p2"
      using sp ab2 by (rule urlparse_of_split)
    then have p2: "urlparse (urlunparse (p\<lparr>query := q\<rparr>)) = Inr ?p2"
      unfolding c h by simp
    have t2: "?nl \<noteq> [] \<or> (?sch \<noteq> [] \<and> ?sch \<in> set uses_netloc) \<or> take 2 (slashed ?x) = ''//''"
    proof (cases "take 2 ?x = ''//''")
      case True
      then have "slashed ?x = ?x" by (cases ?x) (auto simp: slashed_def)
      then show ?thesis using True by simp
    next
      case False
      then show ?thesis using \<open>?nl \<noteq> [] \<or> (?sch \<noteq> [] \<and> ?sch \<in> set uses_netloc) \<or> take 2 ?x = ''//''\<close>
        by blast
    qed
    have "url_head ?sch ?nl (slashed ?x) = scheme_colon ?sch @ ''//'' @ ?nl @ slashed (slashed ?x)"
      using t2 by (rule url_head_auth)
    then have "url_head ?sch ?nl (path_params pa2 pr2) = url_head ?sch ?nl ?x"
      unfolding pp h slashed_idem .
    then have "query ?p2 = q \<and> fragment ?p2 = ?f
           \<and> url_head (scheme ?p2) (netloc ?p2) (path_params (path ?p2) (params ?p2))
               = url_head ?sch ?nl ?x"
      by simp
    with p2 have "urlparse (urlunparse (p\<lparr>query := q\<rparr>)) = Inr ?p2
           \<and> query ?p2 = q \<and> fragment ?p2 = ?f
           \<and> url_head (scheme ?p2) (netloc ?p2) (path_params (path ?p2) (params ?p2))
               = url_head ?sch ?nl ?x"
      by (rule conjI)
    then show ?thesis by (rule exI [of _ ?p2])
  next
    case False
    then have nl: "?nl = []" and t: "take 2 ?x \<noteq> ''//''" by simp_all
    have h: "url_head ?sch ?nl ?x = scheme_colon ?sch @ ?x"
      using False by (rule url_head_plain)
    have s0: "?sch = [] \<longrightarrow> fst (split_scheme ?x) = [] \<and> (?x = [] \<or> \<not> c0_or_space (hd ?x))"
      using inv(9) nl by simp
    have sp: "urlsplit (scheme_colon ?sch @ ?x @ url_tail q ?f) = Inr (?sch, [], ?x, q, ?f)"
      using inv(1) inv(2) inv(6) t s0 q inv(7) by (rule urlsplit_plain)
    let ?p2 = "\<lparr>scheme = ?sch, netloc = [], path = path p, params = params p, query = q,
                fragment = ?f\<rparr>"
    have "urlparse (scheme_colon ?sch @ ?x @ url_tail q ?f) = Inr ?p2"
      using sp inv(10) by (rule urlparse_of_split)
    then have p2: "urlparse (urlunparse (p\<lparr>query := q\<rparr>)) = Inr ?p2"
      unfolding c h by simp
    have "query ?p2 = q \<and> fragment ?p2 = ?f
           \<and> url_head (scheme ?p2) (netloc ?p2) (path_params (path ?p2) (params ?p2))
               = url_head ?sch ?nl ?x"
      using nl by simp
    with p2 have "urlparse (urlunparse (p\<lparr>query := q\<rparr>)) = Inr ?p2
           \<and> query ?p2 = q \<and> fragment ?p2 = ?f
           \<and> url_head (scheme ?p2) (netloc ?p2) (path_params (path ?p2) (params ?p2))
               = url_head ?sch ?nl ?x"
      by (rule conjI)
    then show ?thesis by (rule exI [of _ ?p2])
  qed
qed

lemma clean_url_rebuilt:
  assumes "urlparse u = Inr p"
    and "CHR ''#'' \<notin> set q" and "\<forall>c \<in> set q. \<not> unsafe_byte c"
  shows "clean_url (urlunparse (p\<lparr>query := q\<rparr>)) = Inr (urlunparse (p\<lparr>query := clean_query q\<rparr>))"
proof -
  from urlparse_rebuilt [OF assms] obtain p2 where
    p2: "urlparse (urlunparse (p\<lparr>query := q\<rparr>)) = Inr p2"
    and e: "query p2 = q" "fragment p2 = fragment p"
      "url_head (scheme p2) (netloc p2) (path_params (path p2) (params p2))
         = url_head (scheme p) (netloc p) (path_params (path p) (params p))"
    by (elim exE conjE)
  have "urlunparse (p2\<lparr>query := clean_query (query p2)\<rparr>)
          = url_head (scheme p2) (netloc p2) (path_params (path p2) (params p2))
              @ url_tail (clean_query q) (fragment p)"
    by (simp add: urlunparse_head_tail e(1,2))
  also have "\<dots> = urlunparse (p\<lparr>query := clean_query q\<rparr>)"
    unfolding e(3) by (simp add: urlunparse_head_tail)
  finally have "urlunparse (p2\<lparr>query := clean_query (query p2)\<rparr>)
                  = urlunparse (p\<lparr>query := clean_query q\<rparr>)" .
  then show ?thesis unfolding clean_url_def p2 sum.case by simp
qed

subsection \<open>Tagging twice\<close>

lemma py_in_single: "py_in [c] s \<longleftrightarrow> c \<in> set s"
  by (induction s) (auto simp: eq_commute)

lemma add_affiliate_rule:
  "add_affiliate tags url =
     (case matching_rule tags url of
        None \<Rightarrow> clean_url url
      | Some item \<Rightarrow> (case clean_url url of Inl e \<Rightarrow> Inl e
                      | Inr base \<Rightarrow> Inr (tagged base (snd item))))"
proof (induction tags)
  case Nil
  show ?case by (simp add: matching_rule_def)
next
  case (Cons a tags)
  obtain d t where a: "a = (d, t)" by (cases a)
  show ?case using Cons unfolding a
    by (simp add: matching_rule_def tagged_def split: sum.splits)
qed

lemma matching_rule_mem: "matching_rule tags url = Some item \<Longrightarrow> item \<in> set tags"
  unfolding matching_rule_def by (induction tags) (auto split: if_splits)

lemma tagged_neq: "tagged b t \<noteq> b"
  by (simp add: tagged_def)

lemma tagged_inj: "tagged b t = tagged b t' \<longleftrightarrow> t = t'"
  by (simp add: tagged_def)

lemma tagged_urlunparse:
  assumes "urlparse u = Inr p" and "fragment p = []"
  shows "tagged (urlunparse (p\<lparr>query := q\<rparr>)) t = urlunparse (p\<lparr>query := tagged_query q t\<rparr>)"
proof -
  let ?h = "url_head (scheme p) (netloc p) (path_params (path p) (params p))"
  note inv = urlparse_inv [OF assms(1)]
  have h: "\<forall>c \<in> set ?h. head_char c"
    using inv(2) inv(5) inv(6) by (rule url_head_chars)
  have nq: "CHR ''?'' \<notin> set ?h"
    using h unfolding head_char_def by blast
  have b: "urlunparse (p\<lparr>query := q\<rparr>) = ?h @ url_tail q []"
    using assms(2) by (simp add: urlunparse_head_tail)
  have i: "py_in ''?'' (?h @ url_tail q []) \<longleftrightarrow> q \<noteq> []"
    unfolding py_in_single using nq by (simp add: url_tail_def)
  have tq: "tagged_query q t \<noteq> []" by (simp add: tagged_query_def)
  have "url_tail q [] @ (if q \<noteq> [] then ''&'' else ''?'') @ ''tag='' @ t
          = url_tail (tagged_query q t) []"
    unfolding url_tail_def using tq by (simp add: tagged_query_def)
  then have e: "(?h @ url_tail q []) @ (if q \<noteq> [] then ''&'' else ''?'') @ ''tag='' @ t
                  = ?h @ url_tail (tagged_query q t) []"
    by simp
  have "tagged (?h @ url_tail q []) t = ?h @ url_tail (tagged_query q t) []"
    unfolding tagged_def i by (rule e)
  then show ?thesis
    unfolding b using assms(2) by (simp add: urlunparse_head_tail)
qed

lemma clean_url_cong:
  assumes "filter (\<lambda>c. \<not> unsafe_byte c) (dropWhile c0_or_space a)
             = filter (\<lambda>c. \<not> unsafe_byte c) (dropWhile c0_or_space b)"
  shows "clean_url a = clean_url b"
proof -
  have "urlsplit a = urlsplit b" unfolding urlsplit_def assms by (rule refl)
  then have "urlparse a = urlparse b" by (simp add: urlparse_def)
  then show ?thesis by (simp add: clean_url_def)
qed

lemma lstrip_append:
  assumes "s \<noteq> []" and "\<not> c0_or_space (hd s)"
  shows "dropWhile c0_or_space (b @ s @ r) = dropWhile c0_or_space b @ s @ r"
proof (cases "\<exists>x \<in> set b. \<not> c0_or_space x")
  case True
  then obtain x where "x \<in> set b" "\<not> c0_or_space x" by blast
  then show ?thesis by (rule dropWhile_append1)
next
  case False
  then have a: "\<And>x. x \<in> set b \<Longrightarrow> c0_or_space x" by blast
  have "dropWhile c0_or_space (s @ r) = s @ r"
    using assms by (cases s) simp_all
  moreover have "dropWhile c0_or_space b = []" using a by simp
  ultimately show ?thesis using a by (simp add: dropWhile_append2)
qed

lemma clean_url_tagged_filter:
  "clean_url (tagged b t) = clean_url (tagged b (filter (\<lambda>c. \<not> unsafe_byte c) t))"
proof (rule clean_url_cong)
  let ?s = "(if py_in ''?'' b then ''&'' else ''?'') @ ''tag=''"
  let ?t = "filter (\<lambda>c. \<not> unsafe_byte c) t"
  have s: "?s \<noteq> []" "\<not> c0_or_space (hd ?s)" by (simp_all add: c0_or_space_def)
  have e: "tagged b r = b @ ?s @ r" for r by (simp add: tagged_def)
  have "dropWhile c0_or_space (b @ ?s @ r) = dropWhile c0_or_space b @ ?s @ r" for r
    using s by (rule lstrip_append)
  then have d: "dropWhile c0_or_space (tagged b r) = dropWhile c0_or_space b @ ?s @ r" for r
    unfolding e .
  show "filter (\<lambda>c. \<not> unsafe_byte c) (dropWhile c0_or_space (tagged b t))
          = filter (\<lambda>c. \<not> unsafe_byte c) (dropWhile c0_or_space (tagged b ?t))"
    unfolding d by simp
qed

lemma plain_tag_filter:
  assumes "CHR ''#'' \<notin> set t" and "CHR ''&'' \<notin> set t"
  shows "plain_tag (filter (\<lambda>c. \<not> unsafe_byte c) t)"
  using assms unfolding plain_tag_def list_all_iff by auto

theorem idempotence_counterexample:
  "add_affiliate (AFFILIATE_TAGS W_down) stripped_only_url
     = Inr ''https://example.com/?tag=new-20''
   \<and> add_affiliate (AFFILIATE_TAGS W_down) ''https://example.com/?tag=new-20''
     = Inr ''https://example.com/''
   \<and> add_affiliate (AFFILIATE_TAGS W_down) fragment_url
     = Inr ''https://amazon.com/dp/X#frag?tag=new-20''
   \<and> add_affiliate (AFFILIATE_TAGS W_down) ''https://amazon.com/dp/X#frag?tag=new-20''
     = Inr ''https://amazon.com/dp/X#frag?tag=new-20&tag=new-20''
   \<and> add_affiliate [(''amazon.com'', ''a#b'')] amazon_url = Inr ''https://amazon.com/dp/X?tag=a#b''
   \<and> add_affiliate [(''amazon.com'', ''a#b'')] ''https://amazon.com/dp/X?tag=a#b''
     = Inr ''https://amazon.com/dp/X#b?tag=a#b''
   \<and> add_affiliate [(''amazon.com'', ''a&x=1'')] amazon_url
     = Inr ''https://amazon.com/dp/X?tag=a&x=1''
   \<and> add_affiliate [(''amazon.com'', ''a&x=1'')] ''https://amazon.com/dp/X?tag=a&x=1''
     = Inr ''https://amazon.com/dp/X?x=1&tag=a&x=1''"
  by code_simp

text \<open>
  Claim C4, amended. Let \<open>add_affiliate\<close> turn \<open>u\<close> into \<open>fin\<close>, where the query string of
  \<open>u\<close> is well-formed UTF-8, \<open>u\<close> has no fragment if a rule of the dictionary applies to it,
  and no tag holds a \<^verbatim>\<open>#\<close> or an \<^verbatim>\<open>&\<close>. Then \<open>add_affiliate\<close> returns \<open>fin\<close> for \<open>fin\<close> exactly
  when \<open>fin\<close> selects the tag that \<open>u\<close> selected: the first rule whose domain occurs in
  \<open>fin\<close> carries the tag of the first rule whose domain occurs in \<open>u\<close>, or no rule applies
  to either.
\<close>

theorem rewriting_idempotent:
  assumes fin: "add_affiliate tags u = Inr fin"
    and u: "urlparse u = Inr p"
    and qa: "utf8_ok (query p)"
    and tags: "\<forall>item \<in> set tags. CHR ''#'' \<notin> set (snd item) \<and> CHR ''&'' \<notin> set (snd item)"
    and fr: "matching_rule tags u = None \<or> fragment p = []"
  shows "add_affiliate tags fin = Inr fin
           \<longleftrightarrow> map_option snd (matching_rule tags fin) = map_option snd (matching_rule tags u)"
proof -
  let ?cq = "clean_query (query p)"
  let ?base = "urlunparse (p\<lparr>query := ?cq\<rparr>)"
  have cu: "clean_url u = Inr ?base"
    unfolding clean_url_def u by simp
  show ?thesis
  proof (cases "matching_rule tags u")
    case None
    have f: "fin = ?base"
      using fin unfolding add_affiliate_rule None cu by simp
    have "clean_url ?base = Inr (urlunparse (p\<lparr>query := clean_query ?cq\<rparr>))"
      using u clean_query_chars by (rule clean_url_rebuilt)
    then have "clean_url ?base = Inr ?base"
      unfolding clean_query_idem [OF qa] .
    then have c: "clean_url fin = Inr fin"
      unfolding f .
    show ?thesis
    proof (cases "matching_rule tags fin")
      case 1: None
      have "add_affiliate tags fin = Inr fin"
        unfolding add_affiliate_rule 1 option.case by (rule c)
      then show ?thesis using None 1 by simp
    next
      case 2: (Some item')
      have "add_affiliate tags fin = Inr (tagged fin (snd item'))"
        unfolding add_affiliate_rule 2 option.case c sum.case by (rule refl)
      then show ?thesis using None 2 tagged_neq by simp
    qed
  next
    case (Some item)
    let ?t = "snd item"
    let ?t' = "filter (\<lambda>c. \<not> unsafe_byte c) ?t"
    from fr Some have fe: "fragment p = []" by simp
    have "CHR ''#'' \<notin> set ?t \<and> CHR ''&'' \<notin> set ?t"
      using matching_rule_mem [OF Some] tags by (rule_tac bspec)
    then have safe: "plain_tag ?t'" by (intro plain_tag_filter) simp_all
    have f0: "fin = tagged ?base ?t"
      using fin unfolding add_affiliate_rule Some cu by simp
    have f: "tagged ?base ?t' = urlunparse (p\<lparr>query := tagged_query ?cq ?t'\<rparr>)"
      using u fe by (rule tagged_urlunparse)
    have "clean_url (urlunparse (p\<lparr>query := tagged_query ?cq ?t'\<rparr>))
            = Inr (urlunparse (p\<lparr>query := clean_query (tagged_query ?cq ?t')\<rparr>))"
      using u tagged_query_chars [OF safe] by (rule clean_url_rebuilt)
    then have "clean_url (tagged ?base ?t') = Inr ?base"
      unfolding f clean_query_tagged [OF qa safe] .
    then have c: "clean_url fin = Inr ?base"
      unfolding f0 clean_url_tagged_filter [of ?base ?t] .
    show ?thesis
    proof (cases "matching_rule tags fin")
      case 1: None
      have "add_affiliate tags fin = Inr ?base"
        unfolding add_affiliate_rule 1 option.case by (rule c)
      then show ?thesis using Some 1 f0 tagged_neq [of ?base ?t] by auto
    next
      case 2: (Some item')
      have "add_affiliate tags fin = Inr (tagged ?base (snd item'))"
        unfolding add_affiliate_rule 2 option.case c sum.case by (rule refl)
      then show ?thesis using Some 2 f0 tagged_inj [of ?base "snd item'" ?t] by auto
    qed
  qed
qed

theorem rewriting_idempotent_witness:
  "add_affiliate (AFFILIATE_TAGS W_down) amazon_url = Inr ''https://amazon.com/dp/X?tag=new-20''
   \<and> urlparse amazon_url
       = Inr \<lparr>scheme = ''https'', netloc = ''amazon.com'', path = ''/dp/X'', params = [],
               query = ''tag=old-20&ref=xyz'', fragment = []\<rparr>
   \<and> utf8_ok ''tag=old-20&ref=xyz''
   \<and> CHR ''#'' \<notin> set ''new-20'' \<and> CHR ''&'' \<notin> set ''new-20''
   \<and> CHR ''#'' \<notin> set ''mytagca-20'' \<and> CHR ''&'' \<notin> set ''mytagca-20''
   \<and> matching_rule (AFFILIATE_TAGS W_down) amazon_url = Some (''amazon.com'', ''new-20'')
   \<and> matching_rule (AFFILIATE_TAGS W_down) ''https://amazon.com/dp/X?tag=new-20''
       = Some (''amazon.com'', ''new-20'')
   \<and> add_affiliate (AFFILIATE_TAGS W_down) ''https://amazon.com/dp/X?tag=new-20''
       = Inr ''https://amazon.com/dp/X?tag=new-20''"
proof -
  let ?p = "\<lparr>scheme = ''https'', netloc = ''amazon.com'', path = ''/dp/X'', params = [],
             query = ''tag=old-20&ref=xyz'', fragment = []\<rparr>"
  have f: "add_affiliate (AFFILIATE_TAGS W_down) amazon_url
             = Inr ''https://amazon.com/dp/X?tag=new-20''"
    by code_simp
  have u: "urlparse amazon_url = Inr ?p" by code_simp
  have q: "utf8_ok ''tag=old-20&ref=xyz''" by code_simp
  have t1: "CHR ''#'' \<notin> set ''new-20''" "CHR ''&'' \<notin> set ''new-20''" by simp_all
  have t2: "CHR ''#'' \<notin> set ''mytagca-20''" "CHR ''&'' \<notin> set ''mytagca-20''" by simp_all
  have m1: "matching_rule (AFFILIATE_TAGS W_down) amazon_url = Some (''amazon.com'', ''new-20'')"
    by code_simp
  have m2: "matching_rule (AFFILIATE_TAGS W_down) ''https://amazon.com/dp/X?tag=new-20''
              = Some (''amazon.com'', ''new-20'')"
    by code_simp
  have qa: "utf8_ok (query ?p)" using q by simp
  have tags: "\<forall>item \<in> set (AFFILIATE_TAGS W_down).
                 CHR ''#'' \<notin> set (snd item) \<and> CHR ''&'' \<notin> set (snd item)"
    by (simp add: AFFILIATE_TAGS_def W_down_def)
  have fr: "matching_rule (AFFILIATE_TAGS W_down) amazon_url = None \<or> fragment ?p = []"
    by simp
  have r: "map_option snd (matching_rule (AFFILIATE_TAGS W_down)
                             ''https://amazon.com/dp/X?tag=new-20'')
             = map_option snd (matching_rule (AFFILIATE_TAGS W_down) amazon_url)"
    unfolding m1 m2 by (rule refl)
  have c: "add_affiliate (AFFILIATE_TAGS W_down) ''https://amazon.com/dp/X?tag=new-20''
             = Inr ''https://amazon.com/dp/X?tag=new-20''"
    using rewriting_idempotent [OF f u qa tags fr] r by (rule iffD2)
  from f u q t1 t2 m1 m2 c show ?thesis by (intro conjI)
qed

end
